theory Spec2Isabelle
  imports Main
begin

section \<open>JSON values and the zod schema of generated questions\<close>

text \<open>
  Values as \<^verbatim>\<open>JSON.parse\<close> / \<^verbatim>\<open>res.json()\<close> hand them to the code. An object is the
  list of its properties; a property read is \<open>map_of\<close>, and \<open>None\<close> is JavaScript's
  \<^verbatim>\<open>undefined\<close>. Numbers play no role in any schema below beyond not being strings.
\<close>

datatype json =
    JNull
  | JBool bool
  | JNum int
  | JStr string
  | JArr "json list"
  | JObj "(string \<times> json) list"

datatype difficulty = Easy | Intermediate | Advanced

record suggestion =
  question :: string
  difficulty :: difficulty

text \<open>\<^verbatim>\<open>z.string()\<close>: only a string passes; a missing property does not.\<close>

fun z_string :: "json option \<Rightarrow> string option" where
  "z_string (Some (JStr s)) = Some s"
| "z_string _ = None"

text \<open>\<^verbatim>\<open>z.enum(["Easy", "Intermediate", "Advanced"])\<close>: exactly these three strings.\<close>

fun z_enum :: "json option \<Rightarrow> difficulty option" where
  "z_enum (Some (JStr s)) =
     (if s = ''Easy'' then Some Easy
      else if s = ''Intermediate'' then Some Intermediate
      else if s = ''Advanced'' then Some Advanced
      else None)"
| "z_enum _ = None"

text \<open>
  \<^verbatim>\<open>z.object({ question: z.string(), difficulty: z.enum([...]) })\<close>: the value must be
  an object (not an array, not null); unknown properties are stripped from the result.
\<close>

fun z_item :: "json \<Rightarrow> suggestion option" where
  "z_item (JObj fs) =
     (case z_string (map_of fs ''question'') of
        None \<Rightarrow> None
      | Some q \<Rightarrow>
          (case z_enum (map_of fs ''difficulty'') of
             None \<Rightarrow> None
           | Some d \<Rightarrow> Some \<lparr>question = q, difficulty = d\<rparr>))"
| "z_item _ = None"

text \<open>\<^verbatim>\<open>z.array(item)\<close>: an array all of whose elements pass; one bad element fails the lot.\<close>

fun z_array :: "(json \<Rightarrow> 'a option) \<Rightarrow> json option \<Rightarrow> 'a list option" where
  "z_array item (Some (JArr xs)) = those (map item xs)"
| "z_array item _ = None"

text \<open>\<^verbatim>\<open>.nonempty()\<close>: at least one element. No other bound on the length exists.\<close>

fun z_nonempty :: "'a list option \<Rightarrow> 'a list option" where
  "z_nonempty (Some []) = None"
| "z_nonempty r = r"

text \<open>
  \<^verbatim>\<open>QuestionSchema.safeParse(data)\<close>, the same schema in \<^verbatim>\<open>Questions.jsx\<close> and in
  \<^verbatim>\<open>server.js\<close>. \<open>Some qs\<close> is \<^verbatim>\<open>{ success: true, data: { questions: qs } }\<close>,
  \<open>None\<close> is \<^verbatim>\<open>{ success: false }\<close>.
\<close>

fun QuestionSchema_safeParse :: "json \<Rightarrow> suggestion list option" where
  "QuestionSchema_safeParse (JObj fs) = z_nonempty (z_array z_item (map_of fs ''questions''))"
| "QuestionSchema_safeParse _ = None"

text \<open>
  The shape in the specification's words, for comparison with the schema above: a
  non-empty list in which every element has a string text field (the property
  \<^verbatim>\<open>question\<close>) and a difficulty field that is one of the three levels. The list is
  the \<^verbatim>\<open>questions\<close> property of the response body.
\<close>

definition spec_valid_item :: "json \<Rightarrow> bool" where
  "spec_valid_item v \<longleftrightarrow>
     (\<exists>fs t d. v = JObj fs \<and> map_of fs ''question'' = Some (JStr t)
        \<and> map_of fs ''difficulty'' = Some (JStr d)
        \<and> d \<in> {''Easy'', ''Intermediate'', ''Advanced''})"

definition spec_valid_SuggestionList :: "json \<Rightarrow> bool" where
  "spec_valid_SuggestionList v \<longleftrightarrow>
     (\<exists>fs items. v = JObj fs \<and> map_of fs ''questions'' = Some (JArr items)
        \<and> items \<noteq> [] \<and> (\<forall>it \<in> set items. spec_valid_item it))"

text \<open>A response body carrying the given items, and one shape-valid item.\<close>

definition body_of :: "json list \<Rightarrow> json" where
  "body_of items = JObj [(''questions'', JArr items)]"

definition item_of :: "string \<Rightarrow> string \<Rightarrow> json" where
  "item_of t d = JObj [(''question'', JStr t), (''difficulty'', JStr d)]"

section \<open>The generation endpoint of \<^verbatim>\<open>llm-api-server/server.js\<close>\<close>

text \<open>
  The fixed output shape the specification attributes to the server: ten items, three
  Easy, three Intermediate and four Advanced. In the source these numbers occur in the
  prompt text only.
\<close>

definition spec_fixed_shape :: "suggestion list \<Rightarrow> bool" where
  "spec_fixed_shape qs \<longleftrightarrow>
     length qs = 10
     \<and> length (filter (\<lambda>q. difficulty q = Easy) qs) = 3
     \<and> length (filter (\<lambda>q. difficulty q = Intermediate) qs) = 3
     \<and> length (filter (\<lambda>q. difficulty q = Advanced) qs) = 4"

text \<open>\<^verbatim>\<open>app.all\<close> serves every method; only \<^verbatim>\<open>GET\<close> reads the query string.\<close>

datatype http_method = GET | POST | OTHER

text \<open>
  What the handler reads of a request: the method, \<^verbatim>\<open>req.query.job_role\<close> and
  \<^verbatim>\<open>req.body?.job_role\<close> (\<open>None\<close> is \<^verbatim>\<open>undefined\<close>).
\<close>

record request =
  req_method :: http_method
  query_job_role :: "json option"
  body_job_role :: "json option"

text \<open>
  The language model is outside the program: \<^verbatim>\<open>chain.invoke\<close> either resolves with a
  value or rejects.
\<close>

datatype model_result = Returns json | Throws

datatype response_body =
    ErrorBody string
  | InvalidSchemaBody
  | QuestionsBody "suggestion list"

record response =
  res_status :: nat
  res_body :: response_body

text \<open>JavaScript truthiness of a value, for \<^verbatim>\<open>!roledescription\<close>.\<close>

fun truthy :: "json option \<Rightarrow> bool" where
  "truthy None = False"
| "truthy (Some JNull) = False"
| "truthy (Some (JBool b)) = b"
| "truthy (Some (JNum n)) = (n \<noteq> 0)"
| "truthy (Some (JStr s)) = (s \<noteq> [])"
| "truthy (Some (JArr xs)) = True"
| "truthy (Some (JObj fs)) = True"

text \<open>\<^verbatim>\<open>typeof v === "string"\<close>.\<close>

fun is_string :: "json option \<Rightarrow> bool" where
  "is_string (Some (JStr s)) = True"
| "is_string _ = False"

text \<open>
  \<^verbatim>\<open>app.all("/api/generate-question", ...)\<close>: 400 without a usable role description,
  500 when anything in the \<^verbatim>\<open>try\<close> block throws, 502 when the model's value fails the
  schema, and otherwise \<^verbatim>\<open>res.json(parsed.data)\<close> with the default status 200.
\<close>

definition generate_question :: "request \<Rightarrow> model_result \<Rightarrow> response" where
  "generate_question req m =
     (let roledescription =
            (if req_method req = GET then query_job_role req else body_job_role req)
      in if \<not> truthy roledescription \<or> \<not> is_string roledescription
         then \<lparr>res_status = 400, res_body = ErrorBody ''Role Description is required''\<rparr>
         else (case m of
                 Throws \<Rightarrow>
                   \<lparr>res_status = 500, res_body = ErrorBody
                      ''Failed to generate interview questions, ensure role description and interview is added first.''\<rparr>
               | Returns result \<Rightarrow>
                   (case QuestionSchema_safeParse result of
                      None \<Rightarrow> \<lparr>res_status = 502, res_body = InvalidSchemaBody\<rparr>
                    | Some qs \<Rightarrow> \<lparr>res_status = 200, res_body = QuestionsBody qs\<rparr>)))"

text \<open>
  A request for the role \<^verbatim>\<open>Nurse\<close>, and a model answer of two shape-valid items with
  the questions the endpoint then sends.
\<close>

definition nurse_request :: request where
  "nurse_request =
     \<lparr>req_method = POST, query_job_role = None, body_job_role = Some (JStr ''Nurse'')\<rparr>"

definition two_items :: json where
  "two_items = body_of [item_of ''Describe a shift handover.'' ''Easy'',
                        item_of ''How do you triage?'' ''Advanced'']"

definition two_suggestions :: "suggestion list" where
  "two_suggestions =
     [\<lparr>question = ''Describe a shift handover.'', difficulty = Easy\<rparr>,
      \<lparr>question = ''How do you triage?'', difficulty = Advanced\<rparr>]"

section \<open>The promise cache of \<^verbatim>\<open>Questions.jsx\<close>\<close>

text \<open>
  What \<^verbatim>\<open>fetch\<close> delivers to \<^verbatim>\<open>fetchAIQuestions\<close>: a rejection, or a response with its
  \<^verbatim>\<open>ok\<close> flag, its text and its body as JSON (\<open>None\<close> when the body is not JSON).
\<close>

datatype server_reply = FetchRejected | Reply bool string "json option"

text \<open>
  How the promise of \<^verbatim>\<open>fetchAIQuestions\<close> can reject: \<^verbatim>\<open>fetch\<close> failed, the body
  was not JSON, or the callback threw an \<^verbatim>\<open>Error\<close> with the given message.
\<close>

datatype rejection = FetchFailed | NotJson | ErrorMessage string

text \<open>
  The \<^verbatim>\<open>.then\<close> callback of \<^verbatim>\<open>fetchAIQuestions\<close>: how the promise settles. \<open>Inl\<close> is a
  rejection, \<open>Inr\<close> the validated questions.
\<close>

fun fetchAIQuestions_then :: "server_reply \<Rightarrow> rejection + suggestion list" where
  "fetchAIQuestions_then FetchRejected = Inl FetchFailed"
| "fetchAIQuestions_then (Reply ok_flag msg data) =
     (if \<not> ok_flag
      then Inl (ErrorMessage (if msg \<noteq> [] then msg else ''Failed to generate questions''))
      else (case data of
              None \<Rightarrow> Inl NotJson
            | Some d \<Rightarrow>
                (case QuestionSchema_safeParse d of
                   None \<Rightarrow> Inl (ErrorMessage ''Questions did not match expected schema'')
                 | Some qs \<Rightarrow> Inr qs)))"

text \<open>
  The module state: the \<^verbatim>\<open>Map\<close> from job role to promise, the requests sent to the
  server in order (promise \<open>k\<close> is the one created for request \<open>k\<close>), and how the promises
  have settled so far.
\<close>

record dedup =
  questionPromiseCache :: "string \<rightharpoonup> nat"
  fetches :: "string list"
  settled :: "nat \<rightharpoonup> rejection + suggestion list"

definition dedup_init :: dedup where
  "dedup_init = \<lparr>questionPromiseCache = Map.empty, fetches = [], settled = Map.empty\<rparr>"

text \<open>\<^verbatim>\<open>fetchAIQuestions(job_role)\<close> sends one request and returns a new pending promise.\<close>

definition fetchAIQuestions :: "string \<Rightarrow> dedup \<Rightarrow> nat \<times> dedup" where
  "fetchAIQuestions job_role st = (length (fetches st), st\<lparr>fetches := fetches st @ [job_role]\<rparr>)"

text \<open>
  \<^verbatim>\<open>getQuestionPromise(job_role)\<close>: \<^verbatim>\<open>has\<close>, then \<^verbatim>\<open>set\<close> on a miss, then \<^verbatim>\<open>get\<close>. The
  result is the promise returned (\<open>None\<close> would be \<^verbatim>\<open>undefined\<close>).
\<close>

definition getQuestionPromise :: "string \<Rightarrow> dedup \<Rightarrow> nat option \<times> dedup" where
  "getQuestionPromise job_role st =
     (let st' =
            (if questionPromiseCache st job_role = None
             then (case fetchAIQuestions job_role st of
                     (p, st1) \<Rightarrow> st1\<lparr>questionPromiseCache := (questionPromiseCache st1)(job_role \<mapsto> p)\<rparr>)
             else st)
      in (questionPromiseCache st' job_role, st'))"

text \<open>
  What can happen to the module: a caller asks for a job role, or the server's reply to a
  pending request arrives. Nothing in the source removes or replaces a cache entry, so a
  reply only settles its promise.
\<close>

datatype dedup_event = Call string | Settle nat server_reply

fun dedup_step :: "dedup_event \<Rightarrow> dedup \<Rightarrow> dedup" where
  "dedup_step (Call job_role) st = snd (getQuestionPromise job_role st)"
| "dedup_step (Settle k reply) st =
     (if k < length (fetches st) \<and> settled st k = None
      then st\<lparr>settled := (settled st)(k \<mapsto> fetchAIQuestions_then reply)\<rparr>
      else st)"

fun dedup_run :: "dedup_event list \<Rightarrow> dedup \<Rightarrow> dedup" where
  "dedup_run [] st = st"
| "dedup_run (e # es) st = dedup_run es (dedup_step e st)"

text \<open>The promises handed to the callers of a run, each with the job role asked for.\<close>

fun returned :: "dedup_event list \<Rightarrow> dedup \<Rightarrow> (string \<times> nat option) list" where
  "returned [] st = []"
| "returned (Call job_role # es) st =
     (job_role, fst (getQuestionPromise job_role st)) # returned es (dedup_step (Call job_role) st)"
| "returned (Settle k reply # es) st = returned es (dedup_step (Settle k reply) st)"

text \<open>
  What holds of every module state the code can reach: no job role was requested
  twice, and the cache maps exactly the requested job roles, each to the promise of its
  request.
\<close>

definition dedup_inv :: "dedup \<Rightarrow> bool" where
  "dedup_inv st \<longleftrightarrow>
     distinct (fetches st)
     \<and> (\<forall>r h. questionPromiseCache st r = Some h
            \<longleftrightarrow> (h < length (fetches st) \<and> fetches st ! h = r))"

text \<open>
  Three callers ask for \<^verbatim>\<open>Nurse\<close>, two before and one after its request has failed, and
  one asks for \<^verbatim>\<open>Chef\<close>.
\<close>

definition nurse_calls :: "dedup_event list" where
  "nurse_calls =
     [Call ''Nurse'', Call ''Nurse'', Settle 0 FetchRejected, Call ''Nurse'', Call ''Chef'']"

section \<open>The applicant's interview: data and the REST store\<close>

text \<open>
  Identifiers are the store's integers. A route parameter is the decimal text of such an
  integer and the code reads it back with \<^verbatim>\<open>parseInt\<close>, so routes carry the integer.
\<close>

record question_row =
  q_id :: int
  q_interview_id :: int
  q_question :: string
  q_difficulty :: string

record answerData =
  interview_id :: int
  question_id :: int
  applicant_id :: int
  answer :: string

text \<open>
  What the layout hands to the screens of one session (\<^verbatim>\<open>useOutletContext\<close>,
  \<^verbatim>\<open>useParams\<close>) and what the speech hook reports about the browser.
\<close>

record ctx =
  questions :: "question_row list"
  interviewId :: int
  applicantId :: int
  interview_title :: string
  browserSupportsSpeechRecognition :: bool
  isMicrophoneAvailable :: bool

datatype route = WelcomeRoute | QuestionRoute int | CompleteRoute

text \<open>The two requests the interview flow sends through \<^verbatim>\<open>apiRequest\<close>.\<close>

datatype api_call =
    POST_applicant_answer answerData
  | PATCH_applicant int string

text \<open>
  How a request ends: \<^verbatim>\<open>apiRequest\<close> returns the response's JSON, or the response
  is not ok (with its HTTP status), or \<^verbatim>\<open>fetch\<close> or the reading of the body rejects.
  The last two make \<^verbatim>\<open>apiRequest\<close> throw.
\<close>

datatype fetch_outcome = Ok | NotOk nat | Rejected

datatype api_error = HttpError nat | FetchError

text \<open>
  The state of one session: the route, the state of \<^verbatim>\<open>InterviewQuestion\<close>
  (\<^verbatim>\<open>answers\<close>, \<^verbatim>\<open>submitting\<close>, \<^verbatim>\<open>isPaused\<close>), the speech hook's \<^verbatim>\<open>transcript\<close> and
  \<^verbatim>\<open>listening\<close>, the alerts shown, the requests sent, and the two tables of the store
  the flow writes.
\<close>

record world =
  route :: route
  answers :: "int \<rightharpoonup> string"
  submitting :: bool
  isPaused :: bool
  transcript :: string
  listening :: bool
  alerts :: "string list"
  calls :: "api_call list"
  applicant_answer :: "answerData list"
  interview_status :: "int \<rightharpoonup> string"

text \<open>
  Modelled from the spec: the storage boundary's create operation; the store is a remote
  service, not code of this repository. A create that is answered ok has added the row.
\<close>

definition store_create_answer :: "answerData \<Rightarrow> world \<Rightarrow> world" where
  "store_create_answer a w = w\<lparr>applicant_answer := applicant_answer w @ [a]\<rparr>"

text \<open>
  Modelled from the spec: the storage boundary's update operation, also missing from the
  repository. An update that is answered ok has set the field on the rows its filter
  \<^verbatim>\<open>id=eq.<applicantId>\<close> matches. A request that is not answered ok has changed nothing.
\<close>

definition store_update_status :: "int \<Rightarrow> string \<Rightarrow> world \<Rightarrow> world" where
  "store_update_status aid st w =
     (if aid \<in> dom (interview_status w)
      then w\<lparr>interview_status := (interview_status w)(aid \<mapsto> st)\<rparr>
      else w)"

text \<open>
  \<^verbatim>\<open>submitApplicantAnswer\<close> and \<^verbatim>\<open>updateApplicantStatus\<close> of \<^verbatim>\<open>app.js\<close>: one request
  each; \<open>Some e\<close> is the error \<^verbatim>\<open>apiRequest\<close> throws. (\<^verbatim>\<open>apiRequest\<close> also adds the
  bearer token and the constant \<^verbatim>\<open>username\<close> to every request.)
\<close>

definition submitApplicantAnswer ::
  "answerData \<Rightarrow> fetch_outcome \<Rightarrow> world \<Rightarrow> api_error option \<times> world" where
  "submitApplicantAnswer a outcome w =
     (let w1 = w\<lparr>calls := calls w @ [POST_applicant_answer a]\<rparr>
      in case outcome of
           Ok \<Rightarrow> (None, store_create_answer a w1)
         | NotOk code \<Rightarrow> (Some (HttpError code), w1)
         | Rejected \<Rightarrow> (Some FetchError, w1))"

definition updateApplicantStatus ::
  "int \<Rightarrow> string \<Rightarrow> fetch_outcome \<Rightarrow> world \<Rightarrow> api_error option \<times> world" where
  "updateApplicantStatus aid st outcome w =
     (let w1 = w\<lparr>calls := calls w @ [PATCH_applicant aid st]\<rparr>
      in case outcome of
           Ok \<Rightarrow> (None, store_update_status aid st w1)
         | NotOk code \<Rightarrow> (Some (HttpError code), w1)
         | Rejected \<Rightarrow> (Some FetchError, w1))"

text \<open>
  The Status Transition Gate of the specification: \<open>complete(applicantId)\<close> is the one
  call the code makes, \<^verbatim>\<open>updateApplicantStatus(applicantId, 'Completed')\<close>.
\<close>

definition complete :: "int \<Rightarrow> fetch_outcome \<Rightarrow> world \<Rightarrow> api_error option \<times> world" where
  "complete aid outcome w = updateApplicantStatus aid ''Completed'' outcome w"

text \<open>
  The status updates among the requests sent: the invocations of the Status Transition
  Gate.
\<close>

fun is_status_update :: "api_call \<Rightarrow> bool" where
  "is_status_update (PATCH_applicant aid st) = True"
| "is_status_update (POST_applicant_answer a) = False"

definition status_updates :: "world \<Rightarrow> api_call list" where
  "status_updates w = filter is_status_update (calls w)"

section \<open>The screens of the interview flow\<close>

text \<open>\<^verbatim>\<open>Array.prototype.findIndex\<close>: the first index whose element passes, or \<open>-1\<close>.\<close>

fun findIndex :: "('a \<Rightarrow> bool) \<Rightarrow> 'a list \<Rightarrow> int" where
  "findIndex p [] = - 1"
| "findIndex p (x # xs) =
     (if p x then 0 else (let i = findIndex p xs in if i = - 1 then - 1 else i + 1))"

text \<open>An array read \<^verbatim>\<open>xs[i]\<close>: \<^verbatim>\<open>undefined\<close> (\<open>None\<close>) outside the array, also at \<open>-1\<close>.\<close>

definition js_index :: "'a list \<Rightarrow> int \<Rightarrow> 'a option" where
  "js_index xs i = (if 0 \<le> i \<and> i < int (length xs) then Some (xs ! nat i) else None)"

definition currentQuestionIndex :: "ctx \<Rightarrow> int \<Rightarrow> int" where
  "currentQuestionIndex c questionId = findIndex (\<lambda>q. q_id q = questionId) (questions c)"

definition currentQuestion :: "ctx \<Rightarrow> int \<Rightarrow> question_row option" where
  "currentQuestion c questionId = js_index (questions c) (currentQuestionIndex c questionId)"

definition isLastQuestion :: "ctx \<Rightarrow> int \<Rightarrow> bool" where
  "isLastQuestion c questionId \<longleftrightarrow>
     currentQuestionIndex c questionId = int (length (questions c)) - 1"

text \<open>
  \<^verbatim>\<open>navigate(...)\<close>, with the effect of \<^verbatim>\<open>InterviewQuestion\<close> that runs when the route's
  \<^verbatim>\<open>questionId\<close> changes: \<^verbatim>\<open>setIsPaused(true)\<close> and \<^verbatim>\<open>resetTranscript()\<close>.
\<close>

definition navigate :: "route \<Rightarrow> world \<Rightarrow> world" where
  "navigate r w =
     (case r of
        QuestionRoute qid \<Rightarrow>
          (if route w = r then w else w\<lparr>route := r, isPaused := True, transcript := []\<rparr>)
      | WelcomeRoute \<Rightarrow> w\<lparr>route := r\<rparr>
      | CompleteRoute \<Rightarrow> w\<lparr>route := r\<rparr>)"

text \<open>\<^verbatim>\<open>startInterview\<close> of the welcome screen, and its button's \<^verbatim>\<open>disabled\<close> attribute.\<close>

definition startInterview :: "ctx \<Rightarrow> world \<Rightarrow> world" where
  "startInterview c w =
     (if length (questions c) > 0
      then (case js_index (questions c) 0 of
              Some q \<Rightarrow> navigate (QuestionRoute (q_id q)) w
            | None \<Rightarrow> w)
      else w)"

definition start_disabled :: "ctx \<Rightarrow> bool" where
  "start_disabled c \<longleftrightarrow> length (questions c) = 0"

text \<open>
  The recording handlers. \<^verbatim>\<open>SpeechRecognition.startListening\<close> and \<^verbatim>\<open>stopListening\<close>
  belong to the speech library; the hook's \<^verbatim>\<open>listening\<close> follows them.
\<close>

definition handleStartRecording :: "world \<Rightarrow> world" where
  "handleStartRecording w = w\<lparr>isPaused := False, listening := True\<rparr>"

definition handlePauseRecording :: "world \<Rightarrow> world" where
  "handlePauseRecording w = w\<lparr>isPaused := True, listening := False\<rparr>"

definition handleContinueRecording :: "world \<Rightarrow> world" where
  "handleContinueRecording w = w\<lparr>isPaused := False, listening := True\<rparr>"

definition alert :: "string \<Rightarrow> world \<Rightarrow> world" where
  "alert msg w = w\<lparr>alerts := alerts w @ [msg]\<rparr>"

text \<open>
  \<^verbatim>\<open>setAnswers(prev => ({...prev, [questionId]: answerToSubmit}))\<close>; the effect of the
  component depends on \<^verbatim>\<open>answers\<close> too, so it runs again.
\<close>

definition setAnswers :: "int \<Rightarrow> string \<Rightarrow> world \<Rightarrow> world" where
  "setAnswers questionId a w =
     w\<lparr>answers := (answers w)(questionId \<mapsto> a), isPaused := True, transcript := []\<rparr>"

text \<open>
  The \<^verbatim>\<open>try\<close> ... \<^verbatim>\<open>catch\<close> of \<^verbatim>\<open>goToNextQuestion\<close>: submit the answer; then record it
  locally and, on the last question, update the applicant's status. An error thrown by
  either request is caught and answered with the alert.
\<close>

definition try_submit ::
  "ctx \<Rightarrow> int \<Rightarrow> answerData \<Rightarrow> fetch_outcome \<Rightarrow> fetch_outcome \<Rightarrow> world \<Rightarrow> world" where
  "try_submit c questionId a o_submit o_status w =
     (case submitApplicantAnswer a o_submit w of
        (Some err, w1) \<Rightarrow> alert ''Error saving answer, please try again.'' w1
      | (None, w1) \<Rightarrow>
          (let w2 = setAnswers questionId (answer a) w1
           in if isLastQuestion c questionId
              then (case updateApplicantStatus (applicantId c) ''Completed'' o_status w2 of
                      (Some err, w3) \<Rightarrow> alert ''Error saving answer, please try again.'' w3
                    | (None, w3) \<Rightarrow> w3)
              else w2))"

text \<open>The \<^verbatim>\<open>answerData\<close> object \<^verbatim>\<open>goToNextQuestion\<close> builds for an answer text.\<close>

definition answer_row :: "ctx \<Rightarrow> int \<Rightarrow> string \<Rightarrow> answerData" where
  "answer_row c questionId answerToSubmit =
     \<lparr>interview_id = interviewId c, question_id = questionId,
      applicant_id = applicantId c, answer = answerToSubmit\<rparr>"

text \<open>
  \<^verbatim>\<open>goToNextQuestion\<close> on the question \<open>questionId\<close> of the route, run to its end; the
  two outcomes are those of the requests it may send. Its first part, up to the end of
  the \<^verbatim>\<open>try\<close> ... \<^verbatim>\<open>finally\<close> statement: stop a running recording, set
  \<^verbatim>\<open>submitting\<close>, submit \<^verbatim>\<open>transcript || ''\<close> (an empty transcript is the empty
  string either way), and clear \<^verbatim>\<open>submitting\<close>.
\<close>

definition submit_phase ::
  "ctx \<Rightarrow> int \<Rightarrow> fetch_outcome \<Rightarrow> fetch_outcome \<Rightarrow> world \<Rightarrow> world" where
  "submit_phase c questionId o_submit o_status w =
     (let w1 = (if listening w then handlePauseRecording w else w);
          w2 = w1\<lparr>submitting := True\<rparr>;
          answerToSubmit = transcript w;
          answerData = answer_row c questionId answerToSubmit;
          w3 = try_submit c questionId answerData o_submit o_status w2
      in w3\<lparr>submitting := False\<rparr>)"

text \<open>
  The navigation stands after the \<^verbatim>\<open>try\<close> statement, so it runs whether or not the
  requests succeeded. Reading \<^verbatim>\<open>.id\<close> of a missing next question would throw before
  navigating.
\<close>

definition goToNextQuestion ::
  "ctx \<Rightarrow> int \<Rightarrow> fetch_outcome \<Rightarrow> fetch_outcome \<Rightarrow> world \<Rightarrow> world" where
  "goToNextQuestion c questionId o_submit o_status w =
     (let w4 = submit_phase c questionId o_submit o_status w
      in if \<not> isLastQuestion c questionId
         then (case js_index (questions c) (currentQuestionIndex c questionId + 1) of
                 Some q \<Rightarrow> navigate (QuestionRoute (q_id q)) w4
               | None \<Rightarrow> w4)
         else navigate CompleteRoute w4)"

text \<open>The lines the completion screen shows.\<close>

definition InterviewComplete :: "ctx \<Rightarrow> string list" where
  "InterviewComplete c =
     [''Interview Completed!'',
      ''Thank you for completing the interview for '' @ interview_title c
        @ ''. You may now close this window.'',
      ''Your responses have been successfully recorded.'']"

text \<open>
  What the applicant and the speech engine can do. \<open>Heard s\<close> is the engine delivering
  more recognised speech, which the hook appends to the transcript while listening.
  \<open>Next\<close> carries the outcomes of the requests \<^verbatim>\<open>goToNextQuestion\<close> may send.
\<close>

datatype event =
    StartInterview
  | StartRecording
  | PauseRecording
  | ContinueRecording
  | Heard string
  | Next fetch_outcome fetch_outcome

text \<open>
  One event on the screen the route shows. A control acts only where the screen renders
  it: the welcome screen has the start button; the question screen renders nothing to
  click when the question is not found, the browser lacks speech recognition or the
  microphone is blocked, shows one recording button by \<^verbatim>\<open>getRecordingButton\<close>, and
  disables the next button while submitting; the completion screen has no control.
\<close>

definition ui_step :: "ctx \<Rightarrow> event \<Rightarrow> world \<Rightarrow> world" where
  "ui_step c e w =
     (case route w of
        WelcomeRoute \<Rightarrow>
          (case e of
             StartInterview \<Rightarrow> (if start_disabled c then w else startInterview c w)
           | _ \<Rightarrow> w)
      | QuestionRoute questionId \<Rightarrow>
          (if currentQuestion c questionId = None
              \<or> \<not> browserSupportsSpeechRecognition c \<or> \<not> isMicrophoneAvailable c
           then w
           else (case e of
                   StartInterview \<Rightarrow> w
                 | StartRecording \<Rightarrow>
                     (if \<not> listening w \<and> isPaused w \<and> transcript w = []
                      then handleStartRecording w else w)
                 | PauseRecording \<Rightarrow>
                     (if listening w \<and> \<not> isPaused w then handlePauseRecording w else w)
                 | ContinueRecording \<Rightarrow>
                     (if \<not> listening w \<and> isPaused w \<and> transcript w \<noteq> []
                      then handleContinueRecording w else w)
                 | Heard s \<Rightarrow>
                     (if listening w then w\<lparr>transcript := transcript w @ s\<rparr> else w)
                 | Next o_submit o_status \<Rightarrow>
                     (if submitting w then w
                      else goToNextQuestion c questionId o_submit o_status w)))
      | CompleteRoute \<Rightarrow> w)"

fun run :: "ctx \<Rightarrow> event list \<Rightarrow> world \<Rightarrow> world" where
  "run c [] w = w"
| "run c (e # es) w = run c es (ui_step c e w)"

text \<open>A session as the layout first shows it, over a given store.\<close>

definition initial_world :: "answerData list \<Rightarrow> (int \<rightharpoonup> string) \<Rightarrow> world" where
  "initial_world rows statuses =
     \<lparr>route = WelcomeRoute, answers = Map.empty, submitting = False, isPaused = True,
      transcript = [], listening = False, alerts = [], calls = [],
      applicant_answer = rows, interview_status = statuses\<rparr>"

text \<open>The events that invoke \<^verbatim>\<open>goToNextQuestion\<close>, and those whose requests all answer ok.\<close>

fun is_next :: "event \<Rightarrow> bool" where
  "is_next (Next o_submit o_status) = True"
| "is_next e = False"

fun next_ok :: "event \<Rightarrow> bool" where
  "next_ok (Next o_submit o_status) = (o_submit = Ok \<and> o_status = Ok)"
| "next_ok e = True"

text \<open>The recording controls: events in which nothing is said and nothing is submitted.\<close>

fun is_capture_control :: "event \<Rightarrow> bool" where
  "is_capture_control StartRecording = True"
| "is_capture_control PauseRecording = True"
| "is_capture_control ContinueRecording = True"
| "is_capture_control e = False"

text \<open>The answer records for a list of questions and the texts answered, in order.\<close>

definition answer_rows :: "ctx \<Rightarrow> question_row list \<Rightarrow> string list \<Rightarrow> answerData list" where
  "answer_rows c qs ts = map (\<lambda>(q, t). answer_row c (q_id q) t) (zip qs ts)"

text \<open>
  The captured answers of a run: the transcript the speech hook holds at the moment of
  each invocation of \<^verbatim>\<open>goToNextQuestion\<close>, in order.
\<close>

fun captured_answers :: "ctx \<Rightarrow> event list \<Rightarrow> world \<Rightarrow> string list" where
  "captured_answers c [] w = []"
| "captured_answers c (e # es) w =
     (if is_next e then [transcript w] else []) @ captured_answers c es (ui_step c e w)"

text \<open>
  The scenario of the specification: an interview of two questions; the applicant
  records an answer to the first, pauses and advances, then advances past the second
  without speaking.
\<close>

definition demo_questions :: "question_row list" where
  "demo_questions =
     [\<lparr>q_id = 1, q_interview_id = 1, q_question = ''Tell me about yourself'',
       q_difficulty = ''Easy''\<rparr>,
      \<lparr>q_id = 2, q_interview_id = 1, q_question = ''Why this role?'',
       q_difficulty = ''Easy''\<rparr>]"

definition demo_ctx :: ctx where
  "demo_ctx =
     \<lparr>questions = demo_questions, interviewId = 1, applicantId = 7,
      interview_title = ''Developer'', browserSupportsSpeechRecognition = True,
      isMicrophoneAvailable = True\<rparr>"

definition demo_statuses :: "int \<rightharpoonup> string" where
  "demo_statuses = [7 \<mapsto> ''Not Started'']"

definition demo_events :: "event list" where
  "demo_events =
     [StartRecording, Heard ''I am a developer'', PauseRecording, Next Ok Ok, Next Ok Ok]"

text \<open>Its beginning: the applicant starts the interview and records the first answer.\<close>

definition demo_capture :: "event list" where
  "demo_capture =
     [StartInterview, StartRecording, Heard ''I am a developer'', PauseRecording]"

text \<open>The same interview before any question was added.\<close>

definition empty_ctx :: ctx where
  "empty_ctx = demo_ctx\<lparr>questions := []\<rparr>"

section \<open>The schema validator\<close>

lemma z_item_accepts_iff: "(\<exists>s. z_item v = Some s) \<longleftrightarrow> spec_valid_item v"
proof (cases v)
  case (JObj fs)
  show ?thesis
  proof (cases "map_of fs ''question''")
    case None
    with JObj show ?thesis by (simp add: spec_valid_item_def)
  next
    case (Some a)
    note qa = this
    show ?thesis
    proof (cases a)
      case (JStr t)
      show ?thesis
      proof (cases "map_of fs ''difficulty''")
        case None
        with JObj qa JStr show ?thesis by (simp add: spec_valid_item_def)
      next
        case (Some b)
        with JObj qa JStr show ?thesis
          by (cases b) (auto simp add: spec_valid_item_def)
      qed
    qed (use JObj qa in \<open>simp_all add: spec_valid_item_def\<close>)
  qed
qed (simp_all add: spec_valid_item_def)

lemma those_map_Some_iff:
  "(\<exists>ys. those (map f xs) = Some ys) \<longleftrightarrow> (\<forall>x \<in> set xs. \<exists>y. f x = Some y)"
  by (induction xs) (auto split: option.splits)

lemma those_Some_length: "those xs = Some ys \<Longrightarrow> length ys = length xs"
  by (induction xs arbitrary: ys) (auto split: option.splits)

lemma z_nonempty_Some: "z_nonempty r = Some ys \<Longrightarrow> r = Some ys \<and> ys \<noteq> []"
proof (cases r)
  case None
  assume "z_nonempty r = Some ys"
  with None show ?thesis by simp
next
  case (Some zs)
  assume "z_nonempty r = Some ys"
  with Some show ?thesis by (cases zs) auto
qed

lemma safeParse_Some_items:
  assumes "QuestionSchema_safeParse v = Some qs"
  shows "\<exists>fs items. v = JObj fs \<and> map_of fs ''questions'' = Some (JArr items)
           \<and> those (map z_item items) = Some qs \<and> qs \<noteq> []"
proof (cases v)
  case (JObj fs)
  with assms have n: "z_nonempty (z_array z_item (map_of fs ''questions'')) = Some qs" by simp
  from z_nonempty_Some [OF n] have a: "z_array z_item (map_of fs ''questions'') = Some qs"
    and ne: "qs \<noteq> []" by simp_all
  show ?thesis
  proof (cases "map_of fs ''questions''")
    case None
    with a show ?thesis by simp
  next
    case (Some x)
    with a obtain items where "x = JArr items" by (cases x) simp_all
    with a Some JObj ne show ?thesis by simp
  qed
qed (use assms in simp_all)

lemma safeParse_sound:
  assumes "QuestionSchema_safeParse v = Some qs"
  shows "spec_valid_SuggestionList v"
proof -
  from safeParse_Some_items [OF assms] obtain fs items where v: "v = JObj fs"
    and q: "map_of fs ''questions'' = Some (JArr items)"
    and t: "those (map z_item items) = Some qs" and ne: "qs \<noteq> []"
    by blast
  from t have "length qs = length items" using those_Some_length by fastforce
  with ne have "items \<noteq> []" by auto
  moreover from t have "\<forall>it \<in> set items. \<exists>s. z_item it = Some s"
    using those_map_Some_iff [of z_item items] by blast
  then have "\<forall>it \<in> set items. spec_valid_item it" by (simp add: z_item_accepts_iff)
  ultimately show ?thesis using v q by (auto simp add: spec_valid_SuggestionList_def)
qed

text \<open>
  C3. For every input value, the schema validator accepts it if and only if it carries a
  non-empty list in which every element has a string text field and a difficulty field
  equal to one of Easy, Intermediate or Advanced; every other shape is rejected as a
  whole (\<open>None\<close>: no part of the input is returned). The number of items occurs nowhere
  in the condition.
\<close>

theorem QuestionSchema_accepts_iff_shape:
  "(\<exists>qs. QuestionSchema_safeParse v = Some qs) \<longleftrightarrow> spec_valid_SuggestionList v"
proof
  assume "\<exists>qs. QuestionSchema_safeParse v = Some qs"
  then obtain qs where "QuestionSchema_safeParse v = Some qs" by blast
  then show "spec_valid_SuggestionList v" by (rule safeParse_sound)
next
  assume "spec_valid_SuggestionList v"
  then obtain fs items where v: "v = JObj fs"
    and q: "map_of fs ''questions'' = Some (JArr items)"
    and ne: "items \<noteq> []" and ok: "\<forall>it \<in> set items. spec_valid_item it"
    by (auto simp add: spec_valid_SuggestionList_def)
  from ok have "\<forall>it \<in> set items. \<exists>s. z_item it = Some s" by (simp add: z_item_accepts_iff)
  then obtain qs where t: "those (map z_item items) = Some qs"
    using those_map_Some_iff [of z_item items] by blast
  then have "length qs = length items" using those_Some_length by fastforce
  with ne obtain q' qs' where "qs = q' # qs'" by (cases qs) auto
  with t have "z_nonempty (those (map z_item items)) = Some qs" by simp
  with v q have "QuestionSchema_safeParse v = Some qs" by simp
  then show "\<exists>qs. QuestionSchema_safeParse v = Some qs" by blast
qed

text \<open>A shape-valid list of two items is accepted.\<close>

theorem QuestionSchema_accepts_two_items:
  "\<exists>qs. QuestionSchema_safeParse two_items = Some qs"
proof -
  have "spec_valid_SuggestionList two_items"
    by (simp add: spec_valid_SuggestionList_def spec_valid_item_def two_items_def
        body_of_def item_of_def)
  then show ?thesis
    using QuestionSchema_accepts_iff_shape [of two_items] by simp
qed

section \<open>The generation endpoint\<close>

text \<open>
  C9, as the specification states it, fails: when the model answers with two shape-valid
  items, the endpoint responds 200 with these two items, which are not ten items split
  three, three and four.
\<close>

theorem generate_question_sends_two_items:
  "generate_question nurse_request (Returns two_items)
     = \<lparr>res_status = 200, res_body = QuestionsBody two_suggestions\<rparr>
   \<and> \<not> spec_fixed_shape two_suggestions"
  by (simp add: generate_question_def nurse_request_def two_items_def two_suggestions_def
      body_of_def item_of_def spec_fixed_shape_def)

text \<open>
  C9, amended. Every successful (status 200) response of the endpoint carries the
  questions of a model answer that passed the schema: a non-empty list whose items each
  have a string question and a difficulty among Easy, Intermediate and Advanced. The
  endpoint checks neither the number of items nor the split by difficulty.
\<close>

theorem generate_question_success_shape:
  assumes "res_status (generate_question req m) = 200"
  shows "\<exists>result qs. m = Returns result
           \<and> QuestionSchema_safeParse result = Some qs
           \<and> spec_valid_SuggestionList result
           \<and> res_body (generate_question req m) = QuestionsBody qs
           \<and> qs \<noteq> []"
proof -
  from assms obtain result qs where m: "m = Returns result"
    and p: "QuestionSchema_safeParse result = Some qs"
    and b: "res_body (generate_question req m) = QuestionsBody qs"
    by (auto simp add: generate_question_def Let_def
        split: if_splits model_result.splits option.splits)
  from p have v: "spec_valid_SuggestionList result" by (rule safeParse_sound)
  from safeParse_Some_items [OF p] have "qs \<noteq> []" by blast
  with m p b v show ?thesis by blast
qed

theorem generate_question_success_shape_witness:
  "\<exists>qs. res_body (generate_question nurse_request (Returns two_items)) = QuestionsBody qs
        \<and> qs \<noteq> []"
proof -
  have "res_status (generate_question nurse_request (Returns two_items)) = 200"
    by (simp add: generate_question_def nurse_request_def two_items_def
        body_of_def item_of_def)
  from generate_question_success_shape [OF this] show ?thesis by blast
qed

section \<open>The promise cache\<close>

lemma dedup_inv_init: "dedup_inv dedup_init"
  by (simp add: dedup_inv_def dedup_init_def)

lemma getQuestionPromise_miss:
  assumes "questionPromiseCache st r = None"
  shows "getQuestionPromise r st =
    (Some (length (fetches st)),
     st\<lparr>fetches := fetches st @ [r],
        questionPromiseCache := (questionPromiseCache st)(r \<mapsto> length (fetches st))\<rparr>)"
  using assms by (simp add: getQuestionPromise_def fetchAIQuestions_def)

lemma getQuestionPromise_hit:
  assumes "questionPromiseCache st r = Some h"
  shows "getQuestionPromise r st = (Some h, st)"
  using assms by (simp add: getQuestionPromise_def)

lemma dedup_inv_dom: "dedup_inv st \<Longrightarrow> (r \<in> set (fetches st)) \<longleftrightarrow> questionPromiseCache st r \<noteq> None"
  by (auto simp add: dedup_inv_def in_set_conv_nth)

lemma dedup_inv_Call:
  assumes "dedup_inv st"
  shows "dedup_inv (dedup_step (Call r) st)"
proof (cases "questionPromiseCache st r")
  case None
  then have notin: "r \<notin> set (fetches st)" using assms dedup_inv_dom by auto
  have "dedup_step (Call r) st = st\<lparr>fetches := fetches st @ [r],
        questionPromiseCache := (questionPromiseCache st)(r \<mapsto> length (fetches st))\<rparr>"
    using None by (simp add: getQuestionPromise_miss)
  moreover have "dedup_inv (st\<lparr>fetches := fetches st @ [r],
        questionPromiseCache := (questionPromiseCache st)(r \<mapsto> length (fetches st))\<rparr>)"
    using assms notin None
    apply (simp add: dedup_inv_def)
    apply (auto simp add: nth_append less_Suc_eq)
    done
  ultimately show ?thesis by simp
next
  case (Some h)
  then show ?thesis using assms by (simp add: getQuestionPromise_hit)
qed

lemma dedup_inv_step: "dedup_inv st \<Longrightarrow> dedup_inv (dedup_step e st)"
proof (cases e)
  case (Call r)
  assume "dedup_inv st"
  then show ?thesis using Call dedup_inv_Call by simp
next
  case (Settle k reply)
  assume "dedup_inv st"
  then show ?thesis using Settle by (simp add: dedup_inv_def)
qed

lemma dedup_inv_run: "dedup_inv st \<Longrightarrow> dedup_inv (dedup_run es st)"
  by (induction es arbitrary: st) (simp_all add: dedup_inv_step)

lemma cache_step_mono:
  "questionPromiseCache st r = Some h \<Longrightarrow> questionPromiseCache (dedup_step e st) r = Some h"
proof (cases e)
  case (Call r')
  assume a: "questionPromiseCache st r = Some h"
  show ?thesis
  proof (cases "questionPromiseCache st r'")
    case None
    then have "r' \<noteq> r" using a by auto
    then show ?thesis using Call None a by (simp add: getQuestionPromise_miss)
  next
    case (Some h')
    then show ?thesis using Call a by (simp add: getQuestionPromise_hit)
  qed
next
  case (Settle k reply)
  assume "questionPromiseCache st r = Some h"
  then show ?thesis using Settle by simp
qed

lemma cache_run_mono:
  "questionPromiseCache st r = Some h \<Longrightarrow> questionPromiseCache (dedup_run es st) r = Some h"
  by (induction es arbitrary: st) (simp_all add: cache_step_mono)

lemma call_caches: "\<exists>h. questionPromiseCache (dedup_step (Call r) st) r = Some h \<and> fst (getQuestionPromise r st) = Some h"
  by (cases "questionPromiseCache st r") (simp_all add: getQuestionPromise_miss getQuestionPromise_hit)

lemma returned_final:
  "(r, h) \<in> set (returned es st) \<Longrightarrow> h \<noteq> None \<and> h = questionPromiseCache (dedup_run es st) r"
proof (induction es arbitrary: st)
  case Nil
  then show ?case by simp
next
  case (Cons e es)
  show ?case
  proof (cases e)
    case (Call r')
    from Cons.prems Call have "(r, h) = (r', fst (getQuestionPromise r' st)) \<or> (r, h) \<in> set (returned es (dedup_step e st))"
      by simp
    then show ?thesis
    proof
      assume eq: "(r, h) = (r', fst (getQuestionPromise r' st))"
      obtain h' where h': "questionPromiseCache (dedup_step (Call r) st) r = Some h'" "fst (getQuestionPromise r st) = Some h'"
        using call_caches by blast
      then have "questionPromiseCache (dedup_run es (dedup_step (Call r) st)) r = Some h'"
        by (simp add: cache_run_mono)
      then show ?thesis using eq h' Call by simp
    next
      assume "(r, h) \<in> set (returned es (dedup_step e st))"
      then show ?thesis using Cons.IH by simp
    qed
  next
    case (Settle k reply)
    then show ?thesis using Cons by simp
  qed
qed

lemma count_list_distinct: "distinct xs \<Longrightarrow> x \<in> set xs \<Longrightarrow> count_list xs x = 1"
  by (induction xs) auto

lemma fetches_count:
  assumes "dedup_inv st"
  shows "count_list (fetches st) r = (if questionPromiseCache st r = None then 0 else 1)"
proof (cases "questionPromiseCache st r")
  case None
  then have "r \<notin> set (fetches st)" using assms dedup_inv_dom by auto
  then show ?thesis using None by (simp add: count_list_0_iff)
next
  case (Some h)
  then have "r \<in> set (fetches st)" using assms dedup_inv_dom by auto
  moreover have "distinct (fetches st)" using assms by (simp add: dedup_inv_def)
  ultimately show ?thesis using Some by (simp add: count_list_distinct)
qed

lemma called_cached: "Call r \<in> set es \<Longrightarrow> questionPromiseCache (dedup_run es st) r \<noteq> None"
proof (induction es arbitrary: st)
  case Nil
  then show ?case by simp
next
  case (Cons e es)
  show ?case
  proof (cases "e = Call r")
    case True
    obtain h where "questionPromiseCache (dedup_step (Call r) st) r = Some h"
      using call_caches by blast
    then show ?thesis using True by (simp add: cache_run_mono)
  next
    case False
    then show ?thesis using Cons by simp
  qed
qed

lemma step_not_called: "e \<noteq> Call r \<Longrightarrow> questionPromiseCache (dedup_step e st) r = questionPromiseCache st r"
proof (cases e)
  case (Call r')
  assume "e \<noteq> Call r"
  then have "r' \<noteq> r" using Call by simp
  then show ?thesis using Call
    by (cases "questionPromiseCache st r'") (simp_all add: getQuestionPromise_miss getQuestionPromise_hit)
next
  case (Settle k reply)
  then show ?thesis by simp
qed

lemma not_called_unchanged: "Call r \<notin> set es \<Longrightarrow> questionPromiseCache (dedup_run es st) r = questionPromiseCache st r"
  by (induction es arbitrary: st) (auto simp add: step_not_called)

text \<open>
  C4. For every job-role string, a call that finds no cache entry creates the entry and
  sends the one request; a call that finds an entry returns the cached promise and sends
  nothing, and the entry stays whatever happens afterwards, replies of either kind
  included. So in every run of the module from its initial state, with calls and replies
  interleaved in any way, exactly one request has been sent for each job role asked for
  (none for the others), and every call has returned the promise that the cache still
  holds for its job role at the end.
\<close>

theorem one_request_per_job_role:
  "(questionPromiseCache st r = None \<longrightarrow>
       getQuestionPromise r st =
         (Some (length (fetches st)),
          st\<lparr>fetches := fetches st @ [r],
             questionPromiseCache := (questionPromiseCache st)(r \<mapsto> length (fetches st))\<rparr>))
   \<and> (questionPromiseCache st r = Some h \<longrightarrow>
         getQuestionPromise r st = (Some h, st)
         \<and> questionPromiseCache (dedup_run es st) r = Some h)
   \<and> count_list (fetches (dedup_run es dedup_init)) r = (if Call r \<in> set es then 1 else 0)
   \<and> (\<forall>(r', p) \<in> set (returned es dedup_init).
         p \<noteq> None \<and> p = questionPromiseCache (dedup_run es dedup_init) r')"
proof (intro conjI impI)
  assume "questionPromiseCache st r = None"
  then show "getQuestionPromise r st =
         (Some (length (fetches st)),
          st\<lparr>fetches := fetches st @ [r],
             questionPromiseCache := (questionPromiseCache st)(r \<mapsto> length (fetches st))\<rparr>)"
    by (rule getQuestionPromise_miss)
next
  assume "questionPromiseCache st r = Some h"
  then show "getQuestionPromise r st = (Some h, st)" by (rule getQuestionPromise_hit)
next
  assume "questionPromiseCache st r = Some h"
  then show "questionPromiseCache (dedup_run es st) r = Some h" by (rule cache_run_mono)
next
  have inv: "dedup_inv (dedup_run es dedup_init)"
    using dedup_inv_init by (rule dedup_inv_run)
  show "count_list (fetches (dedup_run es dedup_init)) r = (if Call r \<in> set es then 1 else 0)"
  proof (cases "Call r \<in> set es")
    case True
    then show ?thesis
      using fetches_count [OF inv, of r] called_cached [OF True, of dedup_init] by simp
  next
    case False
    then show ?thesis
      using fetches_count [OF inv, of r] not_called_unchanged [OF False, of dedup_init]
      by (simp add: dedup_init_def)
  qed
next
  show "\<forall>(r', p) \<in> set (returned es dedup_init).
         p \<noteq> None \<and> p = questionPromiseCache (dedup_run es dedup_init) r'"
    using returned_final by blast
qed

theorem one_request_per_job_role_witness:
  "getQuestionPromise ''Nurse'' dedup_init
     = (Some 0, dedup_init\<lparr>fetches := [''Nurse''],
                           questionPromiseCache := [''Nurse'' \<mapsto> 0]\<rparr>)
   \<and> questionPromiseCache
         (dedup_run nurse_calls (snd (getQuestionPromise ''Nurse'' dedup_init))) ''Nurse'' = Some 0
   \<and> count_list (fetches (dedup_run nurse_calls dedup_init)) ''Nurse'' = 1
   \<and> returned nurse_calls dedup_init
       = [(''Nurse'', Some 0), (''Nurse'', Some 0), (''Nurse'', Some 0), (''Chef'', Some 1)]"
proof -
  let ?st = "dedup_init\<lparr>fetches := [''Nurse''], questionPromiseCache := [''Nurse'' \<mapsto> 0]\<rparr>"
  have n: "questionPromiseCache dedup_init ''Nurse'' = None" by (simp add: dedup_init_def)
  have first: "getQuestionPromise ''Nurse'' dedup_init = (Some 0, ?st)"
    using n one_request_per_job_role [of dedup_init "''Nurse''" 0 nurse_calls]
    by (simp add: dedup_init_def)
  have s: "questionPromiseCache ?st ''Nurse'' = Some 0" by simp
  have later: "questionPromiseCache (dedup_run nurse_calls ?st) ''Nurse'' = Some 0"
    using s one_request_per_job_role [of ?st "''Nurse''" 0 nurse_calls] by blast
  have r: "returned nurse_calls dedup_init
       = [(''Nurse'', Some 0), (''Nurse'', Some 0), (''Nurse'', Some 0), (''Chef'', Some 1)]"
    by (simp add: nurse_calls_def dedup_init_def getQuestionPromise_def fetchAIQuestions_def)
  have c: "Call ''Nurse'' \<in> set nurse_calls" by (simp add: nurse_calls_def)
  have "count_list (fetches (dedup_run nurse_calls dedup_init)) ''Nurse'' = 1"
    using c one_request_per_job_role [of dedup_init "''Nurse''" 0 nurse_calls] by simp
  then show ?thesis using first later r by simp
qed

section \<open>The steps of the interview flow\<close>

lemma findIndex_range: "- 1 \<le> findIndex p xs \<and> findIndex p xs < int (length xs)"
  by (induction xs) (auto simp add: Let_def)

lemma findIndex_found: "0 \<le> findIndex p xs \<Longrightarrow> p (xs ! nat (findIndex p xs))"
proof (induction xs)
  case Nil
  then show ?case by simp
next
  case (Cons x xs)
  show ?case
  proof (cases "p x")
    case True
    then show ?thesis by simp
  next
    case False
    with Cons.prems have nz: "findIndex p xs \<noteq> - 1" by (auto simp add: Let_def)
    with findIndex_range [of p xs] have ge: "0 \<le> findIndex p xs" by arith
    then have "p (xs ! nat (findIndex p xs))" by (rule Cons.IH)
    moreover have "nat (findIndex p xs + 1) = Suc (nat (findIndex p xs))" using ge by simp
    ultimately show ?thesis using False nz by (simp add: Let_def)
  qed
qed

lemma findIndex_distinct:
  "distinct (map f xs) \<Longrightarrow> k < length xs \<Longrightarrow> findIndex (\<lambda>q. f q = f (xs ! k)) xs = int k"
proof (induction xs arbitrary: k)
  case Nil
  then show ?case by simp
next
  case (Cons x xs)
  show ?case
  proof (cases k)
    case 0
    then show ?thesis by simp
  next
    case (Suc j)
    with Cons.prems have j: "j < length xs" and d: "distinct (map f xs)" and nx: "f x \<notin> f ` set xs"
      by auto
    from j nx have "f x \<noteq> f (xs ! j)" by (metis imageI nth_mem)
    moreover have "findIndex (\<lambda>q. f q = f (xs ! j)) xs = int j" using d j by (rule Cons.IH)
    ultimately show ?thesis using Suc by (simp add: Let_def)
  qed
qed

lemma navigate_route [simp]: "route (navigate r w) = r"
  by (cases r) (simp_all add: navigate_def)

lemma navigate_keeps [simp]:
  "submitting (navigate r w) = submitting w"
  "alerts (navigate r w) = alerts w"
  "calls (navigate r w) = calls w"
  "applicant_answer (navigate r w) = applicant_answer w"
  "interview_status (navigate r w) = interview_status w"
  by (cases r; simp add: navigate_def)+

lemma submit_Ok:
  "submitApplicantAnswer a Ok w =
     (None, w\<lparr>calls := calls w @ [POST_applicant_answer a],
              applicant_answer := applicant_answer w @ [a]\<rparr>)"
  by (simp add: submitApplicantAnswer_def store_create_answer_def)

lemma submit_fails:
  "o_submit \<noteq> Ok \<Longrightarrow>
     \<exists>e. submitApplicantAnswer a o_submit w = (Some e, w\<lparr>calls := calls w @ [POST_applicant_answer a]\<rparr>)"
  by (cases o_submit) (simp_all add: submitApplicantAnswer_def)

lemma update_Ok:
  "updateApplicantStatus aid st Ok w =
     (None, store_update_status aid st (w\<lparr>calls := calls w @ [PATCH_applicant aid st]\<rparr>))"
  by (simp add: updateApplicantStatus_def)

lemma update_fails:
  "o_status \<noteq> Ok \<Longrightarrow>
     \<exists>e. updateApplicantStatus aid st o_status w = (Some e, w\<lparr>calls := calls w @ [PATCH_applicant aid st]\<rparr>)"
  by (cases o_status) (simp_all add: updateApplicantStatus_def)

lemma store_update_status_keeps [simp]:
  "route (store_update_status aid st w) = route w"
  "submitting (store_update_status aid st w) = submitting w"
  "alerts (store_update_status aid st w) = alerts w"
  "calls (store_update_status aid st w) = calls w"
  "applicant_answer (store_update_status aid st w) = applicant_answer w"
  by (simp_all add: store_update_status_def)

lemma try_submit_fails:
  assumes "o_submit \<noteq> Ok"
  shows "try_submit c qid a o_submit o_status w =
     alert ''Error saving answer, please try again.''
       (w\<lparr>calls := calls w @ [POST_applicant_answer a]\<rparr>)"
proof -
  from submit_fails [OF assms] obtain e where
    "submitApplicantAnswer a o_submit w = (Some e, w\<lparr>calls := calls w @ [POST_applicant_answer a]\<rparr>)"
    by blast
  then show ?thesis by (simp add: try_submit_def)
qed

lemma try_submit_Ok_inner:
  assumes "\<not> isLastQuestion c qid"
  shows "try_submit c qid a Ok o_status w =
     setAnswers qid (answer a)
       (w\<lparr>calls := calls w @ [POST_applicant_answer a],
          applicant_answer := applicant_answer w @ [a]\<rparr>)"
  using assms by (simp add: try_submit_def submit_Ok)

lemma try_submit_Ok_last_Ok:
  assumes "isLastQuestion c qid"
  shows "try_submit c qid a Ok Ok w =
     store_update_status (applicantId c) ''Completed''
       ((setAnswers qid (answer a)
          (w\<lparr>calls := calls w @ [POST_applicant_answer a],
             applicant_answer := applicant_answer w @ [a]\<rparr>))
        \<lparr>calls := calls w @ [POST_applicant_answer a, PATCH_applicant (applicantId c) ''Completed'']\<rparr>)"
  using assms by (simp add: try_submit_def submit_Ok update_Ok setAnswers_def)

lemma try_submit_Ok_last_fails:
  assumes "isLastQuestion c qid" and "o_status \<noteq> Ok"
  shows "try_submit c qid a Ok o_status w =
     alert ''Error saving answer, please try again.''
       ((setAnswers qid (answer a)
          (w\<lparr>calls := calls w @ [POST_applicant_answer a],
             applicant_answer := applicant_answer w @ [a]\<rparr>))
        \<lparr>calls := calls w @ [POST_applicant_answer a, PATCH_applicant (applicantId c) ''Completed'']\<rparr>)"
proof -
  let ?w2 = "setAnswers qid (answer a)
          (w\<lparr>calls := calls w @ [POST_applicant_answer a],
             applicant_answer := applicant_answer w @ [a]\<rparr>)"
  from update_fails [OF assms(2)] obtain e where
    "updateApplicantStatus (applicantId c) ''Completed'' o_status ?w2
       = (Some e, ?w2\<lparr>calls := calls ?w2 @ [PATCH_applicant (applicantId c) ''Completed'']\<rparr>)"
    by blast
  then show ?thesis using assms(1) by (simp add: try_submit_def submit_Ok setAnswers_def)
qed

lemma goToNext_last:
  "isLastQuestion c qid \<Longrightarrow> goToNextQuestion c qid o1 o2 w = navigate CompleteRoute (submit_phase c qid o1 o2 w)"
  by (simp add: goToNextQuestion_def Let_def)

lemma goToNext_inner:
  "\<not> isLastQuestion c qid \<Longrightarrow> js_index (questions c) (currentQuestionIndex c qid + 1) = Some q \<Longrightarrow>
   goToNextQuestion c qid o1 o2 w = navigate (QuestionRoute (q_id q)) (submit_phase c qid o1 o2 w)"
  by (simp add: goToNextQuestion_def Let_def)

lemma goToNext_keeps:
  "calls (goToNextQuestion c qid o1 o2 w) = calls (submit_phase c qid o1 o2 w)"
  "applicant_answer (goToNextQuestion c qid o1 o2 w) = applicant_answer (submit_phase c qid o1 o2 w)"
  "interview_status (goToNextQuestion c qid o1 o2 w) = interview_status (submit_phase c qid o1 o2 w)"
  "alerts (goToNextQuestion c qid o1 o2 w) = alerts (submit_phase c qid o1 o2 w)"
  "submitting (goToNextQuestion c qid o1 o2 w) = submitting (submit_phase c qid o1 o2 w)"
  by (simp_all add: goToNextQuestion_def Let_def split: option.splits)

lemma pause_keeps [simp]:
  "calls (if listening w then handlePauseRecording w else w) = calls w"
  "alerts (if listening w then handlePauseRecording w else w) = alerts w"
  "applicant_answer (if listening w then handlePauseRecording w else w) = applicant_answer w"
  "interview_status (if listening w then handlePauseRecording w else w) = interview_status w"
  by (simp_all add: handlePauseRecording_def)

lemma submit_phase_Ok_inner:
  assumes "\<not> isLastQuestion c qid"
  shows "calls (submit_phase c qid Ok o2 w) = calls w @ [POST_applicant_answer (answer_row c qid (transcript w))]"
    and "applicant_answer (submit_phase c qid Ok o2 w) = applicant_answer w @ [answer_row c qid (transcript w)]"
    and "interview_status (submit_phase c qid Ok o2 w) = interview_status w"
    and "alerts (submit_phase c qid Ok o2 w) = alerts w"
    and "submitting (submit_phase c qid Ok o2 w) = False"
  using assms by (simp_all add: submit_phase_def Let_def try_submit_Ok_inner setAnswers_def)

lemma submit_phase_Ok_last_Ok:
  assumes "isLastQuestion c qid"
  shows "calls (submit_phase c qid Ok Ok w) = calls w @ [POST_applicant_answer (answer_row c qid (transcript w)),
            PATCH_applicant (applicantId c) ''Completed'']"
    and "applicant_answer (submit_phase c qid Ok Ok w) = applicant_answer w @ [answer_row c qid (transcript w)]"
    and "interview_status (submit_phase c qid Ok Ok w) =
           (if applicantId c \<in> dom (interview_status w)
            then (interview_status w)(applicantId c \<mapsto> ''Completed'') else interview_status w)"
    and "alerts (submit_phase c qid Ok Ok w) = alerts w"
    and "submitting (submit_phase c qid Ok Ok w) = False"
  using assms by (simp_all add: submit_phase_def Let_def try_submit_Ok_last_Ok setAnswers_def store_update_status_def)

lemma submit_phase_Ok_last:
  assumes "isLastQuestion c qid"
  shows "calls (submit_phase c qid Ok o2 w) = calls w @ [POST_applicant_answer (answer_row c qid (transcript w)),
            PATCH_applicant (applicantId c) ''Completed'']"
    and "applicant_answer (submit_phase c qid Ok o2 w) = applicant_answer w @ [answer_row c qid (transcript w)]"
proof -
  show "calls (submit_phase c qid Ok o2 w) = calls w @ [POST_applicant_answer (answer_row c qid (transcript w)),
            PATCH_applicant (applicantId c) ''Completed'']"
  proof (cases "o2 = Ok")
    case True
    then show ?thesis using submit_phase_Ok_last_Ok(1) [OF assms] by simp
  next
    case False
    then show ?thesis using assms
      by (simp add: submit_phase_def Let_def try_submit_Ok_last_fails alert_def)
  qed
  show "applicant_answer (submit_phase c qid Ok o2 w) = applicant_answer w @ [answer_row c qid (transcript w)]"
  proof (cases "o2 = Ok")
    case True
    then show ?thesis using submit_phase_Ok_last_Ok(2) [OF assms] by simp
  next
    case False
    then show ?thesis using assms
      by (simp add: submit_phase_def Let_def try_submit_Ok_last_fails alert_def setAnswers_def)
  qed
qed

lemma submit_phase_fails:
  assumes "o1 \<noteq> Ok"
  shows "calls (submit_phase c qid o1 o2 w) = calls w @ [POST_applicant_answer (answer_row c qid (transcript w))]"
    and "applicant_answer (submit_phase c qid o1 o2 w) = applicant_answer w"
    and "interview_status (submit_phase c qid o1 o2 w) = interview_status w"
    and "alerts (submit_phase c qid o1 o2 w) = alerts w @ [''Error saving answer, please try again.'']"
    and "submitting (submit_phase c qid o1 o2 w) = False"
  using assms by (simp_all add: submit_phase_def Let_def try_submit_fails alert_def)

lemma ui_step_complete: "route w = CompleteRoute \<Longrightarrow> ui_step c e w = w"
  by (simp add: ui_step_def)

lemma run_complete: "route w = CompleteRoute \<Longrightarrow> run c es w = w"
  by (induction es) (simp_all add: ui_step_complete)

lemma run_append: "run c (es @ fs) w = run c fs (run c es w)"
  by (induction es arbitrary: w) simp_all

lemma ui_step_capture:
  assumes "route w = QuestionRoute qid" and "\<not> is_next e"
  shows "route (ui_step c e w) = QuestionRoute qid"
    and "submitting (ui_step c e w) = submitting w"
    and "calls (ui_step c e w) = calls w"
    and "applicant_answer (ui_step c e w) = applicant_answer w"
    and "interview_status (ui_step c e w) = interview_status w"
    and "alerts (ui_step c e w) = alerts w"
  using assms
  by (cases e; simp add: ui_step_def handleStartRecording_def handlePauseRecording_def
      handleContinueRecording_def)+

lemma ui_step_next:
  assumes "route w = QuestionRoute qid" and "currentQuestion c qid \<noteq> None"
    and "browserSupportsSpeechRecognition c" and "isMicrophoneAvailable c"
    and "\<not> submitting w"
  shows "ui_step c (Next o1 o2) w = goToNextQuestion c qid o1 o2 w"
  using assms by (auto simp add: ui_step_def)

lemma current_at:
  assumes "distinct (map q_id (questions c))" and "k < length (questions c)"
  shows "currentQuestionIndex c (q_id (questions c ! k)) = int k"
    and "currentQuestion c (q_id (questions c ! k)) = Some (questions c ! k)"
    and "isLastQuestion c (q_id (questions c ! k)) \<longleftrightarrow> Suc k = length (questions c)"
proof -
  show i: "currentQuestionIndex c (q_id (questions c ! k)) = int k"
    unfolding currentQuestionIndex_def using assms by (rule findIndex_distinct)
  show "currentQuestion c (q_id (questions c ! k)) = Some (questions c ! k)"
    using i assms(2) by (simp add: currentQuestion_def js_index_def)
  show "isLastQuestion c (q_id (questions c ! k)) \<longleftrightarrow> Suc k = length (questions c)"
    using i assms(2) by (auto simp add: isLastQuestion_def)
qed

lemma currentQuestion_last:
  assumes "currentQuestion c qid \<noteq> None" and "isLastQuestion c qid"
  shows "questions c \<noteq> []" and "currentQuestion c qid = Some (last (questions c))"
    and "q_id (last (questions c)) = qid"
proof -
  let ?i = "currentQuestionIndex c qid"
  from assms(1) have r: "0 \<le> ?i" "?i < int (length (questions c))"
    by (auto simp add: currentQuestion_def js_index_def split: if_splits)
  then show ne: "questions c \<noteq> []" by auto
  from assms(2) have i: "?i = int (length (questions c)) - 1" by (simp add: isLastQuestion_def)
  then have n: "nat ?i = length (questions c) - 1" by simp
  show "currentQuestion c qid = Some (last (questions c))"
    using r n ne by (simp add: currentQuestion_def js_index_def last_conv_nth)
  have "q_id (questions c ! nat ?i) = qid"
    using findIndex_found [of "\<lambda>q. q_id q = qid" "questions c"] r(1)
    by (simp add: currentQuestionIndex_def)
  then show "q_id (last (questions c)) = qid" using n ne by (simp add: last_conv_nth)
qed

lemma next_exists:
  assumes "currentQuestion c qid \<noteq> None" and "\<not> isLastQuestion c qid"
  shows "\<exists>q. js_index (questions c) (currentQuestionIndex c qid + 1) = Some q"
  using assms by (auto simp add: currentQuestion_def js_index_def isLastQuestion_def split: if_splits)

lemma answer_rows_single: "answer_rows c [q] [t] = [answer_row c (q_id q) t]"
  by (simp add: answer_rows_def)

lemma answer_rows_Cons: "answer_rows c (q # qs) (t # ts) = answer_row c (q_id q) t # answer_rows c qs ts"
  by (simp add: answer_rows_def)

lemma answer_rows_indices:
  assumes "distinct (map q_id (questions c))" and "length ts = length (questions c)"
  shows "map (currentQuestionIndex c \<circ> question_id) (answer_rows c (questions c) ts)
           = map int [0..<length (questions c)]"
proof (rule nth_equalityI)
  show "length (map (currentQuestionIndex c \<circ> question_id) (answer_rows c (questions c) ts))
      = length (map int [0..<length (questions c)])"
    using assms(2) by (simp add: answer_rows_def)
next
  fix i
  assume "i < length (map (currentQuestionIndex c \<circ> question_id) (answer_rows c (questions c) ts))"
  then have i: "i < length (questions c)" using assms(2) by (simp add: answer_rows_def)
  then show "map (currentQuestionIndex c \<circ> question_id) (answer_rows c (questions c) ts) ! i
      = map int [0..<length (questions c)] ! i"
    using assms(2) current_at(1) [OF assms(1) i] by (simp add: answer_rows_def answer_row_def)
qed

lemma status_updates_append_POST [simp]:
  "filter is_status_update (xs @ [POST_applicant_answer a]) = filter is_status_update xs"
  by simp

lemma start_from_initial:
  assumes "questions c \<noteq> []"
  shows "route (ui_step c StartInterview (initial_world rows statuses)) = QuestionRoute (q_id (questions c ! 0))"
    and "\<not> submitting (ui_step c StartInterview (initial_world rows statuses))"
    and "calls (ui_step c StartInterview (initial_world rows statuses)) = []"
    and "alerts (ui_step c StartInterview (initial_world rows statuses)) = []"
    and "applicant_answer (ui_step c StartInterview (initial_world rows statuses)) = rows"
    and "interview_status (ui_step c StartInterview (initial_world rows statuses)) = statuses"
  using assms
  by (simp_all add: ui_step_def start_disabled_def startInterview_def js_index_def initial_world_def)

lemmas walker_defs = ui_step_def goToNextQuestion_def submit_phase_def try_submit_def
  submitApplicantAnswer_def updateApplicantStatus_def store_create_answer_def
  store_update_status_def setAnswers_def alert_def navigate_def startInterview_def
  start_disabled_def handleStartRecording_def handlePauseRecording_def
  handleContinueRecording_def currentQuestion_def currentQuestionIndex_def isLastQuestion_def
  js_index_def answer_row_def initial_world_def Let_def

lemmas demo_defs = demo_ctx_def demo_events_def demo_questions_def demo_statuses_def
  demo_capture_def empty_ctx_def

section \<open>Walking a session\<close>

lemma captured_none: "filter is_next es = [] \<Longrightarrow> captured_answers c es w = []"
  by (induction es arbitrary: w) (auto split: if_splits)

lemma answer_rows_explicit:
  "answer_rows c qs ts =
     map (\<lambda>(q, t). \<lparr>interview_id = interviewId c, question_id = q_id q,
                     applicant_id = applicantId c, answer = t\<rparr>) (zip qs ts)"
  by (simp add: answer_rows_def answer_row_def)

lemma walk_from:
  assumes d: "distinct (map q_id (questions c))"
    and b: "browserSupportsSpeechRecognition c" and m: "isMicrophoneAvailable c"
  shows "k < length (questions c) \<Longrightarrow> route w = QuestionRoute (q_id (questions c ! k))
    \<Longrightarrow> \<not> submitting w
    \<Longrightarrow> length (filter is_next es) = length (questions c) - k
    \<Longrightarrow> \<forall>e \<in> set es. next_ok e
    \<Longrightarrow> length (captured_answers c es w) = length (questions c) - k
          \<and> route (run c es w) = CompleteRoute
          \<and> applicant_answer (run c es w)
              = applicant_answer w @ answer_rows c (drop k (questions c)) (captured_answers c es w)
          \<and> calls (run c es w)
              = calls w
                @ map POST_applicant_answer
                    (answer_rows c (drop k (questions c)) (captured_answers c es w))
                @ [PATCH_applicant (applicantId c) ''Completed'']
          \<and> interview_status (run c es w) =
               (if applicantId c \<in> dom (interview_status w)
                then (interview_status w)(applicantId c \<mapsto> ''Completed'') else interview_status w)
          \<and> alerts (run c es w) = alerts w"
proof (induction es arbitrary: w k)
  case Nil
  then show ?case by simp
next
  case (Cons e es)
  let ?qs = "questions c"
  let ?qid = "q_id (?qs ! k)"
  note cur = current_at [OF d Cons.prems(1)]
  show ?case
  proof (cases "is_next e")
    case False
    let ?w1 = "ui_step c e w"
    note keep = ui_step_capture [OF Cons.prems(2) False, of c]
    have n: "length (filter is_next es) = length ?qs - k" using Cons.prems(4) False by simp
    have a: "\<forall>e \<in> set es. next_ok e" using Cons.prems(5) by simp
    have s: "\<not> submitting ?w1" using keep(2) Cons.prems(3) by simp
    have cap: "captured_answers c (e # es) w = captured_answers c es ?w1" using False by simp
    from Cons.IH [OF Cons.prems(1) keep(1) s n a] keep show ?thesis
      unfolding cap by simp
  next
    case True
    then obtain o1 o2 where e: "e = Next o1 o2" by (cases e) simp_all
    with Cons.prems(5) have oks: "o1 = Ok" "o2 = Ok" by simp_all
    let ?w1 = "goToNextQuestion c ?qid Ok Ok w"
    have step: "ui_step c e w = ?w1"
      using e oks ui_step_next [OF Cons.prems(2) _ b m Cons.prems(3)] cur(2) by simp
    have cap: "captured_answers c (e # es) w = transcript w # captured_answers c es ?w1"
      using True step by simp
    have rest: "length (filter is_next es) = length ?qs - Suc k" using Cons.prems(4) e by simp
    have alls: "\<forall>e \<in> set es. next_ok e" using Cons.prems(5) by simp
    have dropk: "drop k ?qs = ?qs ! k # drop (Suc k) ?qs"
      using Cons.prems(1) by (simp add: Cons_nth_drop_Suc)
    show ?thesis
    proof (cases "Suc k = length ?qs")
      case True
      then have last: "isLastQuestion c ?qid" using cur(3) by simp
      have w1: "?w1 = navigate CompleteRoute (submit_phase c ?qid Ok Ok w)"
        using last by (rule goToNext_last)
      have "run c es ?w1 = ?w1" by (rule run_complete) (simp add: w1)
      moreover have "drop k ?qs = [?qs ! k]" using dropk True by simp
      moreover have "captured_answers c es ?w1 = []"
        using rest True by (intro captured_none) simp
      ultimately show ?thesis
        using step True w1 submit_phase_Ok_last_Ok [OF last, of w]
        unfolding cap by (simp add: answer_rows_single)
    next
      case False
      then have k1: "Suc k < length ?qs" using Cons.prems(1) by simp
      have notlast: "\<not> isLastQuestion c ?qid" using cur(3) False by simp
      have nxt: "js_index ?qs (currentQuestionIndex c ?qid + 1) = Some (?qs ! Suc k)"
        using cur(1) k1 by (simp add: js_index_def nat_add_distrib)
      have w1: "?w1 = navigate (QuestionRoute (q_id (?qs ! Suc k))) (submit_phase c ?qid Ok Ok w)"
        using notlast nxt by (rule goToNext_inner)
      note sp = submit_phase_Ok_inner [OF notlast, of Ok w]
      have r1: "route ?w1 = QuestionRoute (q_id (?qs ! Suc k))" by (simp add: w1)
      have s1: "\<not> submitting ?w1" using sp by (simp add: w1)
      note ih = Cons.IH [OF k1 r1 s1 rest alls]
      have f1: "applicant_answer ?w1 = applicant_answer w @ [answer_row c ?qid (transcript w)]"
        "calls ?w1 = calls w @ [POST_applicant_answer (answer_row c ?qid (transcript w))]"
        "interview_status ?w1 = interview_status w" "alerts ?w1 = alerts w"
        using sp by (simp_all add: w1)
      have len: "length (transcript w # captured_answers c es ?w1) = length ?qs - k"
        using ih k1 by simp
      have rows: "answer_rows c (drop k ?qs) (transcript w # captured_answers c es ?w1)
          = answer_row c ?qid (transcript w)
            # answer_rows c (drop (Suc k) ?qs) (captured_answers c es ?w1)"
        by (simp add: dropk answer_rows_Cons)
      show ?thesis
        using ih f1 len step unfolding cap rows by simp
    qed
  qed
qed

text \<open>
  C2. For every interview whose questions have distinct identifiers and number
  \<open>N \<ge> 1\<close>, in a browser that offers speech recognition and a microphone, the applicant
  starts the interview and \<^verbatim>\<open>goToNextQuestion\<close> is invoked exactly \<open>N\<close> times, with any
  recording in between and every request answered ok. Then there are \<open>N\<close> captured
  answers, and the store gains exactly one record per question, in the order of the
  list: the record of question \<open>k\<close> carries the interview's identifier, the identifier of
  question \<open>k\<close>, the applicant's identifier and, as its answer, the transcript held at
  the \<open>k\<close>-th advance. The advances so happen at the question indices
  \<open>0, 1, ..., N - 1\<close> in this order; these records are what was posted; the session
  ends on the completion screen; and the status update to Completed is sent exactly
  once, as the last request, and takes effect.
\<close>

theorem session_walk_completes:
  assumes "distinct (map q_id (questions c))"
    and "questions c \<noteq> []"
    and "browserSupportsSpeechRecognition c" and "isMicrophoneAvailable c"
    and "length (filter is_next es) = length (questions c)"
    and "\<forall>e \<in> set es. next_ok e"
    and "applicantId c \<in> dom statuses"
  shows "\<exists>ts new.
        ts = captured_answers c es (ui_step c StartInterview (initial_world rows statuses))
      \<and> length ts = length (questions c)
      \<and> new = map (\<lambda>(q, t). \<lparr>interview_id = interviewId c, question_id = q_id q,
                               applicant_id = applicantId c, answer = t\<rparr>)
                   (zip (questions c) ts)
      \<and> route (run c (StartInterview # es) (initial_world rows statuses)) = CompleteRoute
      \<and> applicant_answer (run c (StartInterview # es) (initial_world rows statuses))
          = rows @ new
      \<and> map (currentQuestionIndex c \<circ> question_id) new = map int [0..<length (questions c)]
      \<and> calls (run c (StartInterview # es) (initial_world rows statuses))
          = map POST_applicant_answer new @ [PATCH_applicant (applicantId c) ''Completed'']
      \<and> status_updates (run c (StartInterview # es) (initial_world rows statuses))
          = [PATCH_applicant (applicantId c) ''Completed'']
      \<and> interview_status (run c (StartInterview # es) (initial_world rows statuses))
          = statuses(applicantId c \<mapsto> ''Completed'')
      \<and> alerts (run c (StartInterview # es) (initial_world rows statuses)) = []"
proof -
  let ?w0 = "ui_step c StartInterview (initial_world rows statuses)"
  let ?ts = "captured_answers c es ?w0"
  let ?new = "map (\<lambda>(q, t). \<lparr>interview_id = interviewId c, question_id = q_id q,
                               applicant_id = applicantId c, answer = t\<rparr>)
                   (zip (questions c) ?ts)"
  note s = start_from_initial [OF assms(2), of rows statuses]
  have k: "0 < length (questions c)" using assms(2) by simp
  have n: "length (filter is_next es) = length (questions c) - 0" using assms(5) by simp
  have new: "answer_rows c (questions c) ?ts = ?new" by (rule answer_rows_explicit)
  from walk_from [OF assms(1,3,4) k s(1) s(2) n assms(6)]
  have ts: "length ?ts = length (questions c)"
      "route (run c es ?w0) = CompleteRoute"
      "applicant_answer (run c es ?w0) = applicant_answer ?w0 @ ?new"
      "calls (run c es ?w0) = calls ?w0 @ map POST_applicant_answer ?new
                @ [PATCH_applicant (applicantId c) ''Completed'']"
      "interview_status (run c es ?w0) =
               (if applicantId c \<in> dom (interview_status ?w0)
                then (interview_status ?w0)(applicantId c \<mapsto> ''Completed'')
                else interview_status ?w0)"
      "alerts (run c es ?w0) = alerts ?w0"
    by (simp_all add: new)
  have idx: "map (currentQuestionIndex c \<circ> question_id) ?new
      = map int [0..<length (questions c)]"
    using answer_rows_indices [OF assms(1) ts(1)] unfolding new .
  have g: "filter is_status_update (map POST_applicant_answer ?new) = []"
    by (simp add: filter_empty_conv)
  have su: "status_updates (run c es ?w0) = [PATCH_applicant (applicantId c) ''Completed'']"
    using ts(4) s(3) g by (simp add: status_updates_def)
  have r: "run c (StartInterview # es) (initial_world rows statuses) = run c es ?w0" by simp
  show ?thesis
    unfolding r
    using ts s assms(7) idx su
    by (intro exI [of _ ?ts] exI [of _ ?new]) simp
qed

theorem session_walk_completes_witness:
  "applicant_answer (run demo_ctx (StartInterview # demo_events) (initial_world [] demo_statuses))
     = [\<lparr>interview_id = 1, question_id = 1, applicant_id = 7, answer = ''I am a developer''\<rparr>,
        \<lparr>interview_id = 1, question_id = 2, applicant_id = 7, answer = []\<rparr>]
   \<and> route (run demo_ctx (StartInterview # demo_events) (initial_world [] demo_statuses))
       = CompleteRoute
   \<and> status_updates (run demo_ctx (StartInterview # demo_events) (initial_world [] demo_statuses))
       = [PATCH_applicant 7 ''Completed'']
   \<and> interview_status (run demo_ctx (StartInterview # demo_events) (initial_world [] demo_statuses)) 7
       = Some ''Completed''"
proof -
  have h: "distinct (map q_id (questions demo_ctx))" "questions demo_ctx \<noteq> []"
    "browserSupportsSpeechRecognition demo_ctx" "isMicrophoneAvailable demo_ctx"
    "length (filter is_next demo_events) = length (questions demo_ctx)"
    "\<forall>e \<in> set demo_events. next_ok e"
    "applicantId demo_ctx \<in> dom demo_statuses"
    by (simp_all add: demo_ctx_def demo_questions_def demo_events_def demo_statuses_def)
  have ts: "captured_answers demo_ctx demo_events
              (ui_step demo_ctx StartInterview (initial_world [] demo_statuses))
            = [''I am a developer'', []]"
    by (simp add: demo_defs walker_defs)
  from session_walk_completes [OF h, of "[]"] show ?thesis
    unfolding ts by (simp add: demo_ctx_def demo_questions_def)
qed

section \<open>The status update\<close>

lemma status_update_step:
  assumes "status_updates (ui_step c e w) \<noteq> status_updates w"
  shows "\<exists>qid o2. route w = QuestionRoute qid \<and> e = Next Ok o2
           \<and> currentQuestion c qid \<noteq> None \<and> isLastQuestion c qid
           \<and> applicant_answer (ui_step c e w) = applicant_answer w @ [answer_row c qid (transcript w)]
           \<and> status_updates (ui_step c e w) = status_updates w @ [PATCH_applicant (applicantId c) ''Completed'']
           \<and> route (ui_step c e w) = CompleteRoute"
proof (cases "route w")
  case WelcomeRoute
  then have "calls (ui_step c e w) = calls w"
    by (cases e) (simp_all add: ui_step_def startInterview_def split: option.splits)
  with assms show ?thesis by (simp add: status_updates_def)
next
  case CompleteRoute
  with assms show ?thesis by (simp add: ui_step_complete)
next
  case (QuestionRoute qid)
  show ?thesis
  proof (cases "is_next e")
    case False
    from ui_step_capture(3) [OF QuestionRoute False] assms show ?thesis by (simp add: status_updates_def)
  next
    case True
    then obtain o1 o2 where e: "e = Next o1 o2" by (cases e) simp_all
    show ?thesis
    proof (cases "currentQuestion c qid \<noteq> None \<and> browserSupportsSpeechRecognition c
        \<and> isMicrophoneAvailable c \<and> \<not> submitting w")
      case False
      then have "ui_step c e w = w" using QuestionRoute e by (auto simp add: ui_step_def)
      with assms show ?thesis by simp
    next
      case True
      then have step: "ui_step c e w = goToNextQuestion c qid o1 o2 w"
        using QuestionRoute e ui_step_next by simp
      show ?thesis
      proof (cases "o1 = Ok")
        case False
        from submit_phase_fails(1) [OF False] have "status_updates (ui_step c e w) = status_updates w"
          by (simp add: step status_updates_def goToNext_keeps)
        with assms show ?thesis by simp
      next
        case o1: True
        show ?thesis
        proof (cases "isLastQuestion c qid")
          case False
          from submit_phase_Ok_inner(1) [OF False] have "status_updates (ui_step c e w) = status_updates w"
            by (simp add: step o1 status_updates_def goToNext_keeps)
          with assms show ?thesis by simp
        next
          case last: True
          have "route (ui_step c e w) = CompleteRoute" using last by (simp add: step goToNext_last)
          moreover have "status_updates (ui_step c e w) = status_updates w @ [PATCH_applicant (applicantId c) ''Completed'']"
            using submit_phase_Ok_last(1) [OF last] by (simp add: step o1 status_updates_def goToNext_keeps)
          moreover have "applicant_answer (ui_step c e w) = applicant_answer w @ [answer_row c qid (transcript w)]"
            using submit_phase_Ok_last(2) [OF last] by (simp add: step o1 goToNext_keeps)
          ultimately show ?thesis using QuestionRoute e o1 True last by simp
        qed
      qed
    qed
  qed
qed

lemma status_updates_le: "length (status_updates (run c es w)) \<le> Suc (length (status_updates w))"
proof (induction es arbitrary: w)
  case Nil
  then show ?case by simp
next
  case (Cons e es)
  show ?case
  proof (cases "status_updates (ui_step c e w) = status_updates w")
    case True
    then show ?thesis using Cons.IH [of "ui_step c e w"] by simp
  next
    case False
    from status_update_step [OF False] have "route (ui_step c e w) = CompleteRoute"
      and "status_updates (ui_step c e w) = status_updates w @ [PATCH_applicant (applicantId c) ''Completed'']"
      by auto
    then show ?thesis by (simp add: run_complete)
  qed
qed

text \<open>
  C5. In every session, a step sends the status update only when it is an advance on
  the shown question, this question is the last of the list, and the request storing
  its answer was answered ok (the answer is then in the store); after this step the
  session is on the completion screen. From the start of a session, whatever the
  applicant does and however the requests end, the update is sent at most once.
\<close>

theorem status_update_only_after_last_answer:
  "(status_updates (ui_step c e w) \<noteq> status_updates w \<longrightarrow>
      (\<exists>qid o_status. route w = QuestionRoute qid \<and> e = Next Ok o_status
         \<and> questions c \<noteq> []
         \<and> currentQuestion c qid = Some (last (questions c))
         \<and> q_id (last (questions c)) = qid
         \<and> applicant_answer (ui_step c e w) = applicant_answer w @ [answer_row c qid (transcript w)]
         \<and> status_updates (ui_step c e w) = status_updates w @ [PATCH_applicant (applicantId c) ''Completed'']
         \<and> route (ui_step c e w) = CompleteRoute))
   \<and> length (status_updates (run c es (initial_world rows statuses))) \<le> 1"
proof (intro conjI impI)
  assume "status_updates (ui_step c e w) \<noteq> status_updates w"
  from status_update_step [OF this] obtain qid o2 where g: "route w = QuestionRoute qid" "e = Next Ok o2"
      "currentQuestion c qid \<noteq> None" "isLastQuestion c qid"
      "applicant_answer (ui_step c e w) = applicant_answer w @ [answer_row c qid (transcript w)]"
      "status_updates (ui_step c e w) = status_updates w @ [PATCH_applicant (applicantId c) ''Completed'']"
      "route (ui_step c e w) = CompleteRoute"
    by blast
  note l = currentQuestion_last [OF g(3) g(4)]
  show "\<exists>qid o_status. route w = QuestionRoute qid \<and> e = Next Ok o_status
         \<and> questions c \<noteq> []
         \<and> currentQuestion c qid = Some (last (questions c))
         \<and> q_id (last (questions c)) = qid
         \<and> applicant_answer (ui_step c e w) = applicant_answer w @ [answer_row c qid (transcript w)]
         \<and> status_updates (ui_step c e w) = status_updates w @ [PATCH_applicant (applicantId c) ''Completed'']
         \<and> route (ui_step c e w) = CompleteRoute"
    using g l by blast
next
  have "status_updates (initial_world rows statuses) = []"
    by (simp add: status_updates_def initial_world_def)
  then show "length (status_updates (run c es (initial_world rows statuses))) \<le> 1"
    using status_updates_le [of c es "initial_world rows statuses"] by simp
qed

theorem status_update_only_after_last_answer_witness:
  "route (run demo_ctx (StartInterview # demo_events) (initial_world [] demo_statuses)) = CompleteRoute
   \<and> length (status_updates (run demo_ctx (StartInterview # demo_events) (initial_world [] demo_statuses))) \<le> 1"
proof -
  let ?w = "run demo_ctx (demo_capture @ [Next Ok Ok]) (initial_world [] demo_statuses)"
  have e: "run demo_ctx (StartInterview # demo_events) (initial_world [] demo_statuses)
      = ui_step demo_ctx (Next Ok Ok) ?w"
    by (simp add: demo_events_def demo_capture_def)
  have "status_updates (ui_step demo_ctx (Next Ok Ok) ?w) \<noteq> status_updates ?w"
    by (simp add: status_updates_def demo_defs walker_defs)
  with status_update_only_after_last_answer [of demo_ctx "Next Ok Ok" ?w "StartInterview # demo_events" "[]" demo_statuses]
  show ?thesis unfolding e by blast
qed

text \<open>
  C6. Over the store as modelled from the specification: for every applicant in the
  store, \<open>complete\<close> called twice with both requests answered ok returns no error
  either time and leaves the status Completed; whatever the outcome of the second
  request, the second call changes nothing but the list of requests sent, which gains
  the same update once more.
\<close>

theorem complete_twice:
  assumes "aid \<in> dom (interview_status w)"
  shows "fst (complete aid Ok w) = None
     \<and> fst (complete aid Ok (snd (complete aid Ok w))) = None
     \<and> interview_status (snd (complete aid Ok w)) aid = Some ''Completed''
     \<and> interview_status (snd (complete aid Ok (snd (complete aid Ok w)))) aid = Some ''Completed''
     \<and> snd (complete aid o2 (snd (complete aid Ok w)))
         = (snd (complete aid Ok w))
             \<lparr>calls := calls (snd (complete aid Ok w)) @ [PATCH_applicant aid ''Completed'']\<rparr>"
proof -
  let ?w1 = "snd (complete aid Ok w)"
  have w1: "?w1 = w\<lparr>calls := calls w @ [PATCH_applicant aid ''Completed''],
                     interview_status := (interview_status w)(aid \<mapsto> ''Completed'')\<rparr>"
    using assms
    by (auto simp add: complete_def updateApplicantStatus_def store_update_status_def Let_def)
  have e1: "fst (complete aid Ok w) = None"
    by (simp add: complete_def updateApplicantStatus_def Let_def)
  have e2: "fst (complete aid Ok ?w1) = None"
    by (simp add: complete_def updateApplicantStatus_def Let_def)
  have s1: "interview_status ?w1 aid = Some ''Completed''" by (simp add: w1)
  have same: "snd (complete aid outcome ?w1)
      = ?w1\<lparr>calls := calls ?w1 @ [PATCH_applicant aid ''Completed'']\<rparr>" for outcome
    unfolding w1
    by (cases outcome)
      (auto simp add: complete_def updateApplicantStatus_def store_update_status_def Let_def)
  have s2: "interview_status (snd (complete aid Ok ?w1)) aid = Some ''Completed''"
    using same [of Ok] s1 by simp
  show ?thesis using e1 e2 s1 s2 same [of o2] by simp
qed

theorem complete_twice_witness:
  "interview_status (snd (complete 7 Ok (snd (complete 7 Ok (initial_world [] demo_statuses))))) 7
     = Some ''Completed''"
proof -
  have "7 \<in> dom (interview_status (initial_world [] demo_statuses))"
    by (simp add: initial_world_def demo_statuses_def)
  from complete_twice [OF this] show ?thesis by blast
qed

section \<open>A question left unanswered\<close>

lemma silent_step:
  assumes "route w = QuestionRoute qid" and "is_capture_control e" and "transcript w = []"
  shows "route (ui_step c e w) = QuestionRoute qid"
    and "transcript (ui_step c e w) = []"
    and "submitting (ui_step c e w) = submitting w"
    and "calls (ui_step c e w) = calls w"
    and "applicant_answer (ui_step c e w) = applicant_answer w"
    and "interview_status (ui_step c e w) = interview_status w"
    and "alerts (ui_step c e w) = alerts w"
  using assms
  by (cases e; simp add: ui_step_def handleStartRecording_def handlePauseRecording_def
      handleContinueRecording_def)+

lemma silent_run:
  assumes "\<forall>e \<in> set es. is_capture_control e"
  shows "route w = QuestionRoute qid \<Longrightarrow> transcript w = [] \<Longrightarrow>
     route (run c es w) = QuestionRoute qid
     \<and> transcript (run c es w) = []
     \<and> submitting (run c es w) = submitting w
     \<and> calls (run c es w) = calls w
     \<and> applicant_answer (run c es w) = applicant_answer w
     \<and> interview_status (run c es w) = interview_status w
     \<and> alerts (run c es w) = alerts w"
  using assms
proof (induction es arbitrary: w)
  case Nil
  then show ?case by simp
next
  case (Cons e es)
  then have e: "is_capture_control e" and es: "\<forall>e \<in> set es. is_capture_control e" by simp_all
  note st = silent_step [OF Cons.prems(1) e Cons.prems(2), of c]
  from Cons.IH [OF st(1) st(2) es] st show ?case by simp
qed

lemma silent_advance:
  assumes "route w = QuestionRoute qid"
    and "currentQuestion c qid \<noteq> None"
    and "browserSupportsSpeechRecognition c" and "isMicrophoneAvailable c"
    and "\<not> submitting w"
    and "transcript w = []"
    and "\<forall>e \<in> set es. is_capture_control e"
  shows "applicant_answer (run c (es @ [Next Ok Ok]) w) = applicant_answer w @ [answer_row c qid []]
     \<and> alerts (run c (es @ [Next Ok Ok]) w) = alerts w
     \<and> (if isLastQuestion c qid
         then route (run c (es @ [Next Ok Ok]) w) = CompleteRoute
            \<and> calls (run c (es @ [Next Ok Ok]) w)
                = calls w @ [POST_applicant_answer (answer_row c qid []),
                             PATCH_applicant (applicantId c) ''Completed'']
         else (\<exists>q. js_index (questions c) (currentQuestionIndex c qid + 1) = Some q
                 \<and> route (run c (es @ [Next Ok Ok]) w) = QuestionRoute (q_id q))
            \<and> calls (run c (es @ [Next Ok Ok]) w)
                = calls w @ [POST_applicant_answer (answer_row c qid [])])"
proof -
  let ?w1 = "run c es w"
  from silent_run [OF assms(7) assms(1) assms(6), of c]
  have s: "route ?w1 = QuestionRoute qid" "transcript ?w1 = []" "submitting ?w1 = submitting w"
    "calls ?w1 = calls w" "applicant_answer ?w1 = applicant_answer w" "alerts ?w1 = alerts w"
    by simp_all
  have ns: "\<not> submitting ?w1" using s(3) assms(5) by simp
  have r: "run c (es @ [Next Ok Ok]) w = goToNextQuestion c qid Ok Ok ?w1"
    using ui_step_next [OF s(1) assms(2,3,4) ns] by (simp add: run_append)
  show ?thesis
  proof (cases "isLastQuestion c qid")
    case True
    then show ?thesis
      using submit_phase_Ok_last_Ok [OF True, of ?w1] s
      by (simp add: r goToNext_keeps goToNext_last)
  next
    case False
    from next_exists [OF assms(2) False] obtain q where
      q: "js_index (questions c) (currentQuestionIndex c qid + 1) = Some q" by blast
    then show ?thesis
      using submit_phase_Ok_inner [OF False, of Ok ?w1] s False
      by (simp add: r goToNext_keeps goToNext_inner [OF False q])
  qed
qed

lemma findIndex_exists: "x \<in> set xs \<Longrightarrow> p x \<Longrightarrow> 0 \<le> findIndex p xs"
proof (induction xs)
  case Nil
  then show ?case by simp
next
  case (Cons y ys)
  show ?case
  proof (cases "p y")
    case True
    then show ?thesis by simp
  next
    case False
    with Cons.prems have "x \<in> set ys" by auto
    then have "0 \<le> findIndex p ys" using Cons.prems(2) by (rule Cons.IH)
    then show ?thesis using False by (simp add: Let_def)
  qed
qed

lemma listed_question_is_current:
  assumes "q \<in> set (questions c)"
  shows "currentQuestion c (q_id q) \<noteq> None"
proof -
  have "0 \<le> currentQuestionIndex c (q_id q)"
    unfolding currentQuestionIndex_def using assms by (rule findIndex_exists) simp
  moreover have "currentQuestionIndex c (q_id q) < int (length (questions c))"
    unfolding currentQuestionIndex_def using findIndex_range by blast
  ultimately show ?thesis by (simp add: currentQuestion_def js_index_def)
qed

lemma js_index_in_set: "js_index xs i = Some x \<Longrightarrow> x \<in> set xs"
  by (auto simp add: js_index_def split: if_splits)

lemma submit_phase_route: "route (submit_phase c qid o1 o2 w) = route w"
proof (cases "o1 = Ok")
  case False
  then show ?thesis
    by (simp add: submit_phase_def Let_def try_submit_fails alert_def handlePauseRecording_def)
next
  case o1: True
  show ?thesis
  proof (cases "isLastQuestion c qid")
    case False
    then show ?thesis using o1
      by (simp add: submit_phase_def Let_def try_submit_Ok_inner setAnswers_def
          handlePauseRecording_def)
  next
    case last: True
    show ?thesis
    proof (cases "o2 = Ok")
      case True
      then show ?thesis using o1 last
        by (simp add: submit_phase_def Let_def try_submit_Ok_last_Ok setAnswers_def
            handlePauseRecording_def)
    next
      case False
      then show ?thesis using o1 last
        by (simp add: submit_phase_def Let_def try_submit_Ok_last_fails setAnswers_def
            alert_def handlePauseRecording_def)
    qed
  qed
qed

lemma submit_phase_not_submitting: "\<not> submitting (submit_phase c qid o1 o2 w)"
  by (simp add: submit_phase_def Let_def)

lemma ui_step_not_submitting:
  assumes "\<not> submitting w"
  shows "\<not> submitting (ui_step c e w)"
proof (cases "route w")
  case WelcomeRoute
  then show ?thesis using assms
    by (cases e) (simp_all add: ui_step_def startInterview_def split: option.splits)
next
  case CompleteRoute
  then show ?thesis using assms by (simp add: ui_step_complete)
next
  case (QuestionRoute qid0)
  show ?thesis
  proof (cases "is_next e")
    case False
    then show ?thesis using ui_step_capture(2) [OF QuestionRoute False] assms by simp
  next
    case True
    then obtain o1 o2 where e: "e = Next o1 o2" by (cases e) simp_all
    show ?thesis using QuestionRoute e assms
      by (simp add: ui_step_def goToNext_keeps submit_phase_not_submitting)
  qed
qed

lemma run_not_submitting: "\<not> submitting w \<Longrightarrow> \<not> submitting (run c es w)"
  by (induction es arbitrary: w) (simp_all add: ui_step_not_submitting)

text \<open>
  The step that shows a question: it comes from another screen, so the effect of
  \<^verbatim>\<open>InterviewQuestion\<close> runs and resets the transcript, and the question shown is one of
  the list.
\<close>

lemma arrival_resets:
  assumes "route w0 \<noteq> QuestionRoute qid" and "route (ui_step c e w0) = QuestionRoute qid"
  shows "transcript (ui_step c e w0) = []" and "currentQuestion c qid \<noteq> None"
proof -
  have "transcript (ui_step c e w0) = [] \<and> currentQuestion c qid \<noteq> None"
  proof (cases "route w0")
    case CompleteRoute
    with assms show ?thesis by (simp add: ui_step_complete)
  next
    case WelcomeRoute
    have "e = StartInterview \<and> \<not> start_disabled c"
      using assms(2) WelcomeRoute by (cases e) (auto simp add: ui_step_def split: if_splits)
    then have st: "ui_step c e w0 = startInterview c w0"
      using WelcomeRoute by (simp add: ui_step_def)
    show ?thesis
    proof (cases "js_index (questions c) 0")
      case None
      then have "startInterview c w0 = w0" by (simp add: startInterview_def)
      with st assms WelcomeRoute show ?thesis by simp
    next
      case (Some q)
      have nav: "ui_step c e w0 = navigate (QuestionRoute (q_id q)) w0"
        using st Some assms(2) WelcomeRoute
        by (auto simp add: startInterview_def split: if_splits)
      then have "q_id q = qid" using assms(2) by simp
      moreover have "q \<in> set (questions c)" using Some by (rule js_index_in_set)
      ultimately show ?thesis
        using nav WelcomeRoute listed_question_is_current [of q c]
        by (auto simp add: navigate_def)
    qed
  next
    case (QuestionRoute qid0)
    with assms(1) have ne: "qid0 \<noteq> qid" by simp
    show ?thesis
    proof (cases "is_next e")
      case False
      from ui_step_capture(1) [OF QuestionRoute False, of c] assms(2) ne show ?thesis by simp
    next
      case True
      then obtain o1 o2 where e: "e = Next o1 o2" by (cases e) simp_all
      have moved: "ui_step c e w0 \<noteq> w0" using assms(2) QuestionRoute ne by auto
      then have step: "ui_step c e w0 = goToNextQuestion c qid0 o1 o2 w0"
        using QuestionRoute e by (auto simp add: ui_step_def split: if_splits)
      let ?w4 = "submit_phase c qid0 o1 o2 w0"
      have r4: "route ?w4 = QuestionRoute qid0" using QuestionRoute by (simp add: submit_phase_route)
      have notlast: "\<not> isLastQuestion c qid0"
        using assms(2) step goToNext_last [of c qid0 o1 o2 w0] by auto
      show ?thesis
      proof (cases "js_index (questions c) (currentQuestionIndex c qid0 + 1)")
        case None
        then have "goToNextQuestion c qid0 o1 o2 w0 = ?w4"
          using notlast by (simp add: goToNextQuestion_def Let_def)
        with step assms(2) r4 ne show ?thesis by simp
      next
        case (Some q)
        have nav: "ui_step c e w0 = navigate (QuestionRoute (q_id q)) ?w4"
          using step goToNext_inner [OF notlast Some] by simp
        then have q: "q_id q = qid" using assms(2) by simp
        have "q \<in> set (questions c)" using Some by (rule js_index_in_set)
        then have "currentQuestion c qid \<noteq> None"
          using listed_question_is_current [of q c] q by simp
        moreover have "transcript (navigate (QuestionRoute qid) ?w4) = []"
          using r4 ne by (simp add: navigate_def)
        ultimately show ?thesis using nav q by simp
      qed
    qed
  qed
  then show "transcript (ui_step c e w0) = []" and "currentQuestion c qid \<noteq> None"
    by simp_all
qed

text \<open>
  C7. In a browser that offers speech recognition and a microphone, let any session
  reach the step that shows a question, and let the applicant then only use the
  recording controls, with nothing heard. Then the transcript is the empty string when
  the applicant advances, and with the requests answered ok the advance stores one more
  answer record, for this question and applicant, whose answer is the empty string; it
  shows no alert and proceeds as for any answer: to the next question, or on the last
  question to the completion screen after sending the status update.
\<close>

theorem skipped_answer_is_submitted:
  assumes "browserSupportsSpeechRecognition c" and "isMicrophoneAvailable c"
    and "route (run c es0 (initial_world rows statuses)) \<noteq> QuestionRoute qid"
    and "route (run c (es0 @ [e]) (initial_world rows statuses)) = QuestionRoute qid"
    and "\<forall>e \<in> set es. is_capture_control e"
  shows "transcript (run c (es0 @ e # es) (initial_world rows statuses)) = []
     \<and> applicant_answer (run c (es0 @ e # es @ [Next Ok Ok]) (initial_world rows statuses))
         = applicant_answer (run c (es0 @ [e]) (initial_world rows statuses))
           @ [\<lparr>interview_id = interviewId c, question_id = qid,
               applicant_id = applicantId c, answer = []\<rparr>]
     \<and> alerts (run c (es0 @ e # es @ [Next Ok Ok]) (initial_world rows statuses))
         = alerts (run c (es0 @ [e]) (initial_world rows statuses))
     \<and> (if isLastQuestion c qid
         then route (run c (es0 @ e # es @ [Next Ok Ok]) (initial_world rows statuses))
                = CompleteRoute
            \<and> calls (run c (es0 @ e # es @ [Next Ok Ok]) (initial_world rows statuses))
                = calls (run c (es0 @ [e]) (initial_world rows statuses))
                  @ [POST_applicant_answer
                       \<lparr>interview_id = interviewId c, question_id = qid,
                        applicant_id = applicantId c, answer = []\<rparr>,
                     PATCH_applicant (applicantId c) ''Completed'']
         else (\<exists>q. js_index (questions c) (currentQuestionIndex c qid + 1) = Some q
                 \<and> route (run c (es0 @ e # es @ [Next Ok Ok]) (initial_world rows statuses))
                     = QuestionRoute (q_id q))
            \<and> calls (run c (es0 @ e # es @ [Next Ok Ok]) (initial_world rows statuses))
                = calls (run c (es0 @ [e]) (initial_world rows statuses))
                  @ [POST_applicant_answer
                       \<lparr>interview_id = interviewId c, question_id = qid,
                        applicant_id = applicantId c, answer = []\<rparr>])"
proof -
  let ?w0 = "run c es0 (initial_world rows statuses)"
  let ?w1 = "ui_step c e ?w0"
  have w1: "run c (es0 @ [e]) (initial_world rows statuses) = ?w1" by (simp add: run_append)
  have shown: "route ?w1 = QuestionRoute qid" using assms(4) w1 by simp
  note a = arrival_resets [OF assms(3) shown]
  have "\<not> submitting (initial_world rows statuses)" by (simp add: initial_world_def)
  then have "\<not> submitting ?w0" by (rule run_not_submitting)
  then have ns: "\<not> submitting ?w1" by (rule ui_step_not_submitting)
  have r1: "run c (es0 @ e # es) (initial_world rows statuses) = run c es ?w1"
    by (simp add: run_append)
  have r2: "run c (es0 @ e # es @ [Next Ok Ok]) (initial_world rows statuses)
      = run c (es @ [Next Ok Ok]) ?w1"
    by (simp add: run_append)
  have t: "transcript (run c es ?w1) = []"
    using silent_run [OF assms(5) shown a(1), of c] by simp
  from silent_advance [OF shown a(2) assms(1,2) ns a(1) assms(5)] t
  show ?thesis
    unfolding r1 r2 w1 by (simp add: answer_row_def)
qed

theorem skipped_answer_is_submitted_witness:
  "transcript
     (run demo_ctx (demo_capture @ Next Ok Ok # [StartRecording, PauseRecording])
        (initial_world [] demo_statuses)) = []
   \<and> applicant_answer
       (run demo_ctx (demo_capture @ Next Ok Ok # [StartRecording, PauseRecording] @ [Next Ok Ok])
          (initial_world [] demo_statuses))
     = [\<lparr>interview_id = 1, question_id = 1, applicant_id = 7, answer = ''I am a developer''\<rparr>,
        \<lparr>interview_id = 1, question_id = 2, applicant_id = 7, answer = []\<rparr>]
   \<and> route
       (run demo_ctx (demo_capture @ Next Ok Ok # [StartRecording, PauseRecording] @ [Next Ok Ok])
          (initial_world [] demo_statuses))
     = CompleteRoute"
proof -
  have c: "browserSupportsSpeechRecognition demo_ctx" "isMicrophoneAvailable demo_ctx"
    by (simp_all add: demo_ctx_def)
  have before: "route (run demo_ctx demo_capture (initial_world [] demo_statuses))
      \<noteq> QuestionRoute 2"
    by (simp add: demo_defs walker_defs)
  have shown: "route (run demo_ctx (demo_capture @ [Next Ok Ok]) (initial_world [] demo_statuses))
      = QuestionRoute 2"
    by (simp add: demo_defs walker_defs)
  have quiet: "\<forall>e \<in> set [StartRecording, PauseRecording]. is_capture_control e" by simp
  have first: "applicant_answer
      (run demo_ctx (demo_capture @ [Next Ok Ok]) (initial_world [] demo_statuses))
      = [\<lparr>interview_id = 1, question_id = 1, applicant_id = 7, answer = ''I am a developer''\<rparr>]"
    by (simp add: demo_defs walker_defs)
  have last: "isLastQuestion demo_ctx 2" by (simp add: demo_defs walker_defs)
  from skipped_answer_is_submitted [OF c before shown quiet] first last
  show ?thesis by (simp add: demo_ctx_def)
qed

section \<open>A failed submission\<close>

text \<open>
  C1, at a concrete input. The applicant has recorded an answer to the first of two
  questions and advances; the request storing the answer is answered with status 500.
  The code shows the alert that asks to try again, and nevertheless navigates to the
  second question; no answer is stored.
\<close>

theorem failed_submit_still_advances:
  "route (run demo_ctx (demo_capture @ [Next (NotOk 500) Ok]) (initial_world [] demo_statuses))
     = QuestionRoute 2
   \<and> applicant_answer (run demo_ctx (demo_capture @ [Next (NotOk 500) Ok]) (initial_world [] demo_statuses))
     = []
   \<and> alerts (run demo_ctx (demo_capture @ [Next (NotOk 500) Ok]) (initial_world [] demo_statuses))
     = [''Error saving answer, please try again.'']"
  by (simp add: demo_defs walker_defs)

theorem failed_submit_still_advances_witness:
  "route (run demo_ctx (demo_capture @ [Next (NotOk 500) Ok]) (initial_world [] demo_statuses))
     \<noteq> QuestionRoute 1"
  using failed_submit_still_advances by simp

text \<open>
  C10. If the request storing the answer fails while the applicant is on the last
  question, \<^verbatim>\<open>goToNextQuestion\<close> shows the alert and still navigates to the completion
  screen, whose text says that the responses were recorded; no status update is sent,
  so the stored status is what it was (Not Started stays Not Started), and the last
  answer is not in the store.
\<close>

theorem failed_last_submit_still_completes:
  assumes "isLastQuestion c qid" and "o_submit \<noteq> Ok"
  shows "route (goToNextQuestion c qid o_submit o_status w) = CompleteRoute
     \<and> interview_status (goToNextQuestion c qid o_submit o_status w) = interview_status w
     \<and> applicant_answer (goToNextQuestion c qid o_submit o_status w) = applicant_answer w
     \<and> calls (goToNextQuestion c qid o_submit o_status w)
         = calls w @ [POST_applicant_answer (answer_row c qid (transcript w))]
     \<and> alerts (goToNextQuestion c qid o_submit o_status w)
         = alerts w @ [''Error saving answer, please try again.'']
     \<and> ''Your responses have been successfully recorded.'' \<in> set (InterviewComplete c)"
  using assms submit_phase_fails [OF assms(2), of c qid o_status w]
  by (simp add: goToNext_keeps goToNext_last InterviewComplete_def)

theorem failed_last_submit_still_completes_witness:
  "route (goToNextQuestion demo_ctx 2 (NotOk 500) Ok
            (run demo_ctx (demo_capture @ [Next Ok Ok]) (initial_world [] demo_statuses)))
     = CompleteRoute
   \<and> interview_status (goToNextQuestion demo_ctx 2 (NotOk 500) Ok
            (run demo_ctx (demo_capture @ [Next Ok Ok]) (initial_world [] demo_statuses))) 7
     = Some ''Not Started''"
proof -
  let ?w = "run demo_ctx (demo_capture @ [Next Ok Ok]) (initial_world [] demo_statuses)"
  have l: "isLastQuestion demo_ctx 2" by (simp add: demo_defs walker_defs)
  have n: "NotOk 500 \<noteq> Ok" by simp
  have s: "interview_status ?w 7 = Some ''Not Started''" by (simp add: demo_defs walker_defs)
  from failed_last_submit_still_completes [OF l n, of Ok ?w] s show ?thesis by simp
qed

section \<open>An interview without questions\<close>

lemma no_current_question:
  assumes "questions c = []"
  shows "currentQuestion c qid = None"
  using assms by (simp add: currentQuestion_def currentQuestionIndex_def js_index_def)

lemma empty_step:
  assumes "questions c = []"
  shows "ui_step c e w = w"
proof (cases "route w")
  case WelcomeRoute
  then show ?thesis using assms by (cases e) (simp_all add: ui_step_def start_disabled_def)
next
  case (QuestionRoute qid)
  then show ?thesis using no_current_question [OF assms] by (simp add: ui_step_def)
next
  case CompleteRoute
  then show ?thesis by (simp add: ui_step_def)
qed

lemma empty_run:
  assumes "questions c = []"
  shows "run c es w = w"
  by (induction es) (simp_all add: empty_step [OF assms])

text \<open>
  C8. For every interview whose loaded question list is empty, \<^verbatim>\<open>startInterview\<close>
  does not navigate and the start button is disabled, and no question is the current
  question of any route; so whatever events follow, the session stays exactly as it is:
  from the welcome screen the question screen is never entered.
\<close>

theorem no_entry_without_questions:
  assumes "questions c = []"
  shows "startInterview c w = w \<and> start_disabled c
     \<and> currentQuestion c qid = None
     \<and> run c es w = w"
  using assms empty_run [OF assms] no_current_question [OF assms]
  by (simp add: startInterview_def start_disabled_def)

theorem no_entry_without_questions_witness:
  "run empty_ctx (StartInterview # demo_events) (initial_world [] demo_statuses)
     = initial_world [] demo_statuses
   \<and> route (run empty_ctx (StartInterview # demo_events) (initial_world [] demo_statuses))
     = WelcomeRoute
   \<and> start_disabled empty_ctx"
proof -
  have q: "questions empty_ctx = []" by (simp add: empty_ctx_def)
  from no_entry_without_questions
    [OF q, of "initial_world [] demo_statuses" 0 "StartInterview # demo_events"]
  show ?thesis by (simp add: initial_world_def)
qed

end
